theory Spec2Isabelle
  imports Complex_Main "HOL-Library.List_Lexorder" "HOL-Library.Sublist"
begin

section \<open>Python strings\<close>

text \<open>
  A Python \<open>str\<close> is a sequence of Unicode code points, so a string is a list of
  natural numbers here (the source strips U+200B and U+FEFF, which are no bytes).
  \<open>u\<close> reads an ASCII literal as such a string. The order of \<open>sorted\<close> on strings,
  code point by code point, is the lexicographic order on these lists.
\<close>

type_synonym str = "nat list"

definition u :: "string \<Rightarrow> str" where
  "u s = map of_char s"

abbreviation NL :: nat where
  "NL \<equiv> 10"

abbreviation ZWSP :: nat where
  "ZWSP \<equiv> 8203"

abbreviation BOM :: nat where
  "BOM \<equiv> 65279"

text \<open>
  \<open>str.isspace\<close> on one character, which is also the class \<open>\s\<close> of \<open>re\<close> on a
  \<open>str\<close> pattern: U+0009..U+000D, U+001C..U+0020, U+0085, U+00A0, U+1680,
  U+2000..U+200A, U+2028, U+2029, U+202F, U+205F, U+3000.
\<close>

definition isspace :: "nat \<Rightarrow> bool" where
  "isspace c =
     ((9 \<le> c \<and> c \<le> 13) \<or> (28 \<le> c \<and> c \<le> 32) \<or> c = 133 \<or> c = 160 \<or> c = 5760 \<or>
      (8192 \<le> c \<and> c \<le> 8202) \<or> c = 8232 \<or> c = 8233 \<or> c = 8239 \<or> c = 8287 \<or>
      c = 12288)"

text \<open>\<open>s.strip()\<close>: leading and trailing whitespace removed.\<close>

definition strip :: "str \<Rightarrow> str" where
  "strip s = rev (dropWhile isspace (rev (dropWhile isspace s)))"

text \<open>\<open>s.endswith(t)\<close>.\<close>

definition endswith :: "str \<Rightarrow> str \<Rightarrow> bool" where
  "endswith s t = (length t \<le> length s \<and> drop (length s - length t) s = t)"

text \<open>\<open>sep.join(xs)\<close>.\<close>

fun join :: "str \<Rightarrow> str list \<Rightarrow> str" where
  "join sep [] = []"
| "join sep [x] = x"
| "join sep (x # y # ys) = x @ sep @ join sep (y # ys)"

text \<open>\<open>s.replace(c, '')\<close> for a pattern \<open>c\<close> of one character: every \<open>c\<close> is dropped.\<close>

definition replace_char :: "nat \<Rightarrow> str \<Rightarrow> str" where
  "replace_char c s = filter (\<lambda>x. x \<noteq> c) s"

section \<open>The paragraph splitter: \<open>re.split(r'\n\s*\n', s)\<close>\<close>

text \<open>
  The pattern matched at the start of \<open>s\<close>: a newline, then \<open>\s*\<close>, greedy, takes the
  whole run of whitespace that follows and gives characters back until a newline is
  next; the match ends after the last newline of the run. The result is the length of
  the match.
\<close>

definition match_len :: "str \<Rightarrow> nat option" where
  "match_len s =
     (case s of
        [] \<Rightarrow> None
      | c # cs \<Rightarrow>
          if c \<noteq> NL then None
          else let run = takeWhile isspace cs in
            if NL \<in> set run
            then Some (Suc (length run - length (takeWhile (\<lambda>x. x \<noteq> NL) (rev run))))
            else None)"

text \<open>The leftmost match in \<open>s\<close>: where it starts and how long it is.\<close>

fun re_search :: "str \<Rightarrow> (nat \<times> nat) option" where
  "re_search [] = None"
| "re_search (c # cs) =
     (case match_len (c # cs) of
        Some n \<Rightarrow> Some (0, n)
      | None \<Rightarrow> map_option (\<lambda>(i, n). (Suc i, n)) (re_search cs))"

lemma length_takeWhile_lt:
  "x \<in> set xs \<Longrightarrow> \<not> P x \<Longrightarrow> length (takeWhile P xs) < length xs"
  by (induction xs) auto

lemma match_len_bounds:
  "match_len s = Some n \<Longrightarrow> 2 \<le> n \<and> n \<le> length s"
proof -
  assume a: "match_len s = Some n"
  then obtain cs where s: "s = NL # cs"
    by (auto simp: match_len_def split: list.splits if_splits)
  define run where "run = takeWhile isspace cs"
  define t where "t = length (takeWhile (\<lambda>x. x \<noteq> NL) (rev run))"
  from a s have nl: "NL \<in> set run" and n: "n = Suc (length run - t)"
    by (auto simp: match_len_def run_def t_def Let_def split: if_splits)
  have "length (takeWhile (\<lambda>x. x \<noteq> NL) (rev run)) < length (rev run)"
    using nl by (intro length_takeWhile_lt [of NL]) auto
  then have "t < length run"
    unfolding t_def by simp
  moreover have "length run \<le> length cs"
    unfolding run_def by (rule length_takeWhile_le)
  ultimately show ?thesis using n s by auto
qed

lemma re_search_bounds:
  "re_search s = Some (i, n) \<Longrightarrow> 2 \<le> n \<and> i + n \<le> length s"
proof (induction s arbitrary: i)
  case Nil
  then show ?case by simp
next
  case (Cons c cs)
  show ?case
  proof (cases "match_len (c # cs)")
    case (Some m)
    with Cons.prems have "i = 0" "n = m" by simp_all
    with match_len_bounds [OF Some] show ?thesis by simp
  next
    case None
    with Cons.prems obtain j where "re_search cs = Some (j, n)" "i = Suc j"
      by auto
    with Cons.IH [of j] show ?thesis by simp
  qed
qed

text \<open>
  \<open>re.split\<close>: the text before each match, from left to right, and the rest after the
  last match.
\<close>

function re_split :: "str \<Rightarrow> str list" where
  "re_split s =
     (case re_search s of
        None \<Rightarrow> [s]
      | Some (i, n) \<Rightarrow> take i s # re_split (drop (i + n) s))"
  by pat_completeness auto
termination
proof (relation "measure length")
  show "wf (measure length)" by simp
next
  fix s :: str and x2 i n
  assume "re_search s = Some x2" "(i, n) = x2"
  then have "re_search s = Some (i, n)" by simp
  from re_search_bounds [OF this] have "2 \<le> n" "i + n \<le> length s"
    by simp_all
  then show "(drop (i + n) s, s) \<in> measure length"
    by simp
qed

declare re_split.simps [simp del]

text \<open>The chunker of the knowledge base: trim, then split at the paragraph breaks.\<close>

definition chunker :: "str \<Rightarrow> str list" where
  "chunker corpus = re_split (strip corpus)"

section \<open>The world outside the program\<close>

text \<open>
  What the program reads from its environment, as values: \<open>os.listdir\<close> (the names in
  a directory, in no particular order; \<open>None\<close> when the call raises), reading a file
  as text by its path (\<open>open(path, "r", encoding="utf-8")\<close> and \<open>fh.read()\<close>: the decoded
  text; \<open>None\<close> when either raises), and loading the pretrained sentence-embedding model
  (\<open>None\<close> when it cannot be loaded). The model is a third-party collaborator; it is a
  parameter: a function from a text to its vector, with one more argument \<open>'r\<close> for
  whatever else a call of the embedder may depend on besides the text. An embedder is
  deterministic when that argument does not matter. \<open>hidden\<close> is its value at the time
  of a call.
\<close>

type_synonym vec = "real list"

type_synonym 'r embedder = "'r \<Rightarrow> str \<Rightarrow> vec"

record 'r world =
  listdir :: "str \<Rightarrow> str list option"
  read_text :: "str \<Rightarrow> str option"
  SentenceTransformer :: "'r embedder option"
  hidden :: 'r

text \<open>
  The exceptions a call can end with: \<open>os.listdir\<close> or reading a file raised, the
  embedding model could not be loaded, a vector of another dimension met the index, an
  index out of range, an attribute of \<open>None\<close>.
\<close>

datatype error = OSError | ModelLoadError | DimensionMismatchError | IndexError | AttributeError

text \<open>\<open>os.path.join(a, b)\<close> (posixpath).\<close>

definition path_join :: "str \<Rightarrow> str \<Rightarrow> str" where
  "path_join a b =
     (if b \<noteq> [] \<and> hd b = 47 then b
      else if a = [] \<or> last a = 47 then a @ b
      else a @ [47] @ b)"

text \<open>
  Modelled from the spec: the batch interface of the embedder (\<open>model.encode(texts)\<close> in
  the source, third-party code): one vector for each text, in order, each text encoded
  on its own.
\<close>

definition encode :: "'r embedder \<Rightarrow> 'r \<Rightarrow> str list \<Rightarrow> vec list" where
  "encode m r texts = map (m r) texts"

section \<open>The vector index\<close>

text \<open>
  Modelled from the spec: the flat L2 index (\<open>faiss.IndexFlatL2\<close> in the source, a
  third-party library whose code is not in the repository). It stores vectors of one
  dimension in the order they were added; adding a vector of another dimension fails.
  A search takes a batch of query vectors, fails when one of them has another dimension,
  and returns for each query the \<open>min k n\<close> nearest of the \<open>n\<close> stored vectors as pairs
  (position, squared Euclidean distance), by ascending distance, equal distances by
  ascending position: a stable sort of the positions by distance. An empty index answers
  with an empty row. Distances are computed over the reals, and \<open>k\<close> is a natural number:
  the specification gives a search no meaning for a negative \<open>k\<close>.
\<close>

record VectorIndex =
  dimension :: nat
  vectors :: "vec list"

definition IndexFlatL2 :: "nat \<Rightarrow> VectorIndex" where
  "IndexFlatL2 n = \<lparr>dimension = n, vectors = []\<rparr>"

definition index_add :: "VectorIndex \<Rightarrow> vec list \<Rightarrow> error + VectorIndex" where
  "index_add ix vs =
     (if list_all (\<lambda>v. length v = dimension ix) vs
      then Inr (ix\<lparr>vectors := vectors ix @ vs\<rparr>)
      else Inl DimensionMismatchError)"

definition l2sqr :: "vec \<Rightarrow> vec \<Rightarrow> real" where
  "l2sqr q v = sum_list (map (\<lambda>(a, b). (a - b) * (a - b)) (zip q v))"

definition search_row :: "VectorIndex \<Rightarrow> vec \<Rightarrow> nat \<Rightarrow> (nat \<times> real) list" where
  "search_row ix q k =
     take k (sort_key snd (zip [0..<length (vectors ix)] (map (l2sqr q) (vectors ix))))"

definition index_search :: "VectorIndex \<Rightarrow> vec list \<Rightarrow> nat \<Rightarrow> error + (nat \<times> real) list list" where
  "index_search ix qs k =
     (if list_all (\<lambda>q. length q = dimension ix) qs
      then Inr (map (\<lambda>q. search_row ix q k) qs)
      else Inl DimensionMismatchError)"

section \<open>The knowledge base\<close>

record 'r KnowledgeBase =
  kb_dir :: str
  chunks :: "str list"
  model :: "'r embedder option"
  index :: "VectorIndex option"

text \<open>
  The loop of \<open>_load_files\<close> over the sorted file names; \<open>corpus\<close> is the text
  collected so far. A file that cannot be read raises out of the loop.
\<close>

fun read_all :: "'r world \<Rightarrow> str \<Rightarrow> str list \<Rightarrow> str \<Rightarrow> error + str" where
  "read_all w d [] corpus = Inr corpus"
| "read_all w d (f # files) corpus =
     (case read_text w (path_join d f) of
        None \<Rightarrow> Inl OSError
      | Some content \<Rightarrow>
          read_all w d files
            (corpus @ u ''\<newline>\<newline># Source: '' @ f @ u ''\<newline>\<newline>'' @ content))"

definition load_files :: "'r world \<Rightarrow> 'r KnowledgeBase \<Rightarrow> error + str" where
  "load_files w self =
     (case listdir w (kb_dir self) of
        None \<Rightarrow> Inl OSError
      | Some names \<Rightarrow>
          read_all w (kb_dir self) (sort (filter (\<lambda>f. endswith f (u ''.md'')) names)) [])"

text \<open>
  \<open>_load\<close> fills the fields of \<open>self\<close> one after the other; \<open>emb.shape[1]\<close> is the
  length of the rows of the embedding matrix, read off its first row.
\<close>

definition load :: "'r world \<Rightarrow> 'r KnowledgeBase \<Rightarrow> error + 'r KnowledgeBase" where
  "load w self =
     (case load_files w self of
        Inl e \<Rightarrow> Inl e
      | Inr corpus \<Rightarrow>
          let self = self\<lparr>chunks := chunker corpus\<rparr> in
          (case SentenceTransformer w of
             None \<Rightarrow> Inl ModelLoadError
           | Some m \<Rightarrow>
               let self = self\<lparr>model := Some m\<rparr>;
                   emb = encode m (hidden w) (chunks self)
               in (case emb of
                     [] \<Rightarrow> Inl IndexError
                   | row # _ \<Rightarrow>
                       let self = self\<lparr>index := Some (IndexFlatL2 (length row))\<rparr> in
                       (case index_add (IndexFlatL2 (length row)) emb of
                          Inl e \<Rightarrow> Inl e
                        | Inr ix \<Rightarrow> Inr (self\<lparr>index := Some ix\<rparr>)))))"

text \<open>\<open>KnowledgeBase(kb_dir)\<close>: \<open>__init__\<close>.\<close>

definition KnowledgeBase_init :: "'r world \<Rightarrow> str \<Rightarrow> error + 'r KnowledgeBase" where
  "KnowledgeBase_init w d =
     load w \<lparr>kb_dir = d, chunks = [], model = None, index = None\<rparr>"

text \<open>
  \<open>xs[i]\<close> for an index that is not negative, as the positions of a search row are.
\<close>

definition getitem :: "'a list \<Rightarrow> nat \<Rightarrow> error + 'a" where
  "getitem xs i = (if i < length xs then Inr (xs ! i) else Inl IndexError)"

text \<open>\<open>[xs[i] for i in idx]\<close>.\<close>

fun getitems :: "'a list \<Rightarrow> nat list \<Rightarrow> error + 'a list" where
  "getitems xs [] = Inr []"
| "getitems xs (i # idx) =
     (case getitem xs i of
        Inl e \<Rightarrow> Inl e
      | Inr x \<Rightarrow> (case getitems xs idx of Inl e \<Rightarrow> Inl e | Inr ys \<Rightarrow> Inr (x # ys)))"

text \<open>
  The chunk texts \<open>retrieve\<close> joins: the query is encoded as a batch of one, the index
  searched, and the chunks at the positions of the first row looked up.
\<close>

definition nearest_chunks :: "'r \<Rightarrow> 'r KnowledgeBase \<Rightarrow> str \<Rightarrow> nat \<Rightarrow> error + str list" where
  "nearest_chunks r self query top_k =
     (case model self of
        None \<Rightarrow> Inl AttributeError
      | Some m \<Rightarrow>
          let qemb = encode m r [query] in
          (case index self of
             None \<Rightarrow> Inl AttributeError
           | Some ix \<Rightarrow>
               (case index_search ix qemb top_k of
                  Inl e \<Rightarrow> Inl e
                | Inr rows \<Rightarrow>
                    (case getitem rows 0 of
                       Inl e \<Rightarrow> Inl e
                     | Inr row \<Rightarrow> getitems (chunks self) (map fst row)))))"

definition retrieve :: "'r \<Rightarrow> 'r KnowledgeBase \<Rightarrow> str \<Rightarrow> nat \<Rightarrow> error + str" where
  "retrieve r self query top_k =
     (case nearest_chunks r self query top_k of
        Inl e \<Rightarrow> Inl e
      | Inr texts \<Rightarrow>
          Inr (replace_char BOM (replace_char ZWSP (join (u ''\<newline>\<newline>'') texts))))"

section \<open>The cache of knowledge bases\<close>

text \<open>
  The state of the process: the dictionary \<open>_kb_cache\<close>, and the trace of the calls of
  the constructor \<open>KnowledgeBase(kb_dir)\<close>, one entry for each call: no variable of the
  program, but the record of how often a knowledge base was built, and for which
  location.
\<close>

record 'r process =
  kb_cache :: "str \<rightharpoonup> 'r KnowledgeBase"
  constructed :: "str list"

definition get_kb ::
  "'r world \<Rightarrow> str \<Rightarrow> 'r process \<Rightarrow> (error + 'r KnowledgeBase) \<times> 'r process" where
  "get_kb w d st =
     (case kb_cache st d of
        Some kb \<Rightarrow> (Inr kb, st)
      | None \<Rightarrow>
          let st = st\<lparr>constructed := constructed st @ [d]\<rparr> in
          (case KnowledgeBase_init w d of
             Inl e \<Rightarrow> (Inl e, st)
           | Inr kb \<Rightarrow> (Inr kb, st\<lparr>kb_cache := (kb_cache st)(d \<mapsto> kb)\<rparr>)))"

section \<open>Notions of the specification\<close>

text \<open>
  A text has a blank line when two of its newlines have nothing but whitespace between
  them: some newline is followed by a run of whitespace that holds another newline.
\<close>

fun has_blank_line :: "str \<Rightarrow> bool" where
  "has_blank_line [] = False"
| "has_blank_line (c # cs) = ((c = NL \<and> NL \<in> set (takeWhile isspace cs)) \<or> has_blank_line cs)"

text \<open>
  A gap between two paragraphs is whitespace with at least one blank line; a paragraph
  is a text with no blank line that starts and ends with a character that is not
  whitespace. \<open>corpus_of p rest\<close> is the corpus of the paragraph \<open>p\<close> followed by the
  paragraphs of \<open>rest\<close>, each after its gap.
\<close>

definition blank_gap :: "str \<Rightarrow> bool" where
  "blank_gap g = (list_all isspace g \<and> 2 \<le> count_list g NL)"

definition is_para :: "str \<Rightarrow> bool" where
  "is_para p = (p \<noteq> [] \<and> \<not> isspace (hd p) \<and> \<not> isspace (last p) \<and> \<not> has_blank_line p)"

definition corpus_of :: "str \<Rightarrow> (str \<times> str) list \<Rightarrow> str" where
  "corpus_of p rest = p @ concat (map (\<lambda>(g, q). g @ q) rest)"

text \<open>An embedder is deterministic when the same text always has the same vector.\<close>

definition deterministic :: "'r embedder \<Rightarrow> bool" where
  "deterministic m = (\<forall>r r' t. m r t = m r' t)"

text \<open>
  For the proofs about the splitter: a text whose trailing whitespace holds no newline,
  and a text whose leading whitespace holds none.
\<close>

definition closed_end :: "str \<Rightarrow> bool" where
  "closed_end x = (NL \<notin> set (takeWhile isspace (rev x)))"

definition open_start :: "str \<Rightarrow> bool" where
  "open_start y = (NL \<notin> set (takeWhile isspace y))"

text \<open>
  \<open>rstrip\<close> is \<open>str.rstrip\<close>, the second half of \<open>strip\<close>. The provenance header of a
  file name, and what \<open>_load_files\<close> adds to the corpus for one document: a pair of a
  file name and its content.
\<close>

definition rstrip :: "str \<Rightarrow> str" where
  "rstrip s = rev (dropWhile isspace (rev s))"

definition provenance_header :: "str \<Rightarrow> str" where
  "provenance_header f = u ''# Source: '' @ f"

definition entry :: "str \<times> str \<Rightarrow> str" where
  "entry doc = u ''\<newline>\<newline>'' @ provenance_header (fst doc) @ u ''\<newline>\<newline>'' @ snd doc"

section \<open>Small worlds\<close>

text \<open>
  An embedder that maps a text to the vector of its length, whatever else holds; a
  directory \<open>kb\<close> with one markdown document \<open>a.md\<close> (and a file that is none), and a
  directory \<open>kb\<close> with no markdown document at all.
\<close>

definition emb0 :: "nat embedder" where
  "emb0 r t = [real (length t)]"

definition world1 :: "nat world" where
  "world1 =
     \<lparr>listdir = (\<lambda>d. if d = u ''kb'' then Some [u ''notes.txt'', u ''a.md''] else None),
      read_text = (\<lambda>p. if p = u ''kb/a.md'' then Some (u ''hi'') else None),
      SentenceTransformer = Some emb0,
      hidden = 0\<rparr>"

definition kb1 :: "nat KnowledgeBase" where
  "kb1 =
     \<lparr>kb_dir = u ''kb'', chunks = [u ''# Source: a.md'', u ''hi''], model = Some emb0,
      index = Some \<lparr>dimension = 1, vectors = [[14], [2]]\<rparr>\<rparr>"

definition world0 :: "nat world" where
  "world0 =
     \<lparr>listdir = (\<lambda>d. if d = u ''kb'' then Some [u ''notes.txt''] else None),
      read_text = (\<lambda>p. None),
      SentenceTransformer = Some emb0,
      hidden = 0\<rparr>"

text \<open>
  A directory with two markdown documents, listed out of order, whose contents hold a
  zero-width space and a byte-order mark.
\<close>

definition world3 :: "nat world" where
  "world3 =
     \<lparr>listdir =
        (\<lambda>d. if d = u ''kb'' then Some [u ''b.md'', u ''notes.txt'', u ''a.md''] else None),
      read_text =
        (\<lambda>p. if p = u ''kb/a.md'' then Some (u ''h'' @ ZWSP # u ''i'')
             else if p = u ''kb/b.md'' then Some (BOM # u ''yo'')
             else None),
      SentenceTransformer = Some emb0,
      hidden = 0\<rparr>"

definition kb3 :: "nat KnowledgeBase" where
  "kb3 =
     \<lparr>kb_dir = u ''kb'',
      chunks = [u ''# Source: a.md'', u ''h'' @ ZWSP # u ''i'', u ''# Source: b.md'', BOM # u ''yo''],
      model = Some emb0,
      index = Some \<lparr>dimension = 1, vectors = [[14], [3], [14], [3]]\<rparr>\<rparr>"

text \<open>
  A directory whose one markdown document has a name with a blank line in it, and the
  state of a process that has not asked for a knowledge base yet.
\<close>

definition world2 :: "nat world" where
  "world2 =
     \<lparr>listdir = (\<lambda>d. if d = u ''kb'' then Some [u ''x\<newline>\<newline>y.md''] else None),
      read_text = (\<lambda>p. if p = u ''kb/x\<newline>\<newline>y.md'' then Some (u ''hi'') else None),
      SentenceTransformer = Some emb0,
      hidden = 0\<rparr>"

definition st0 :: "nat process" where
  "st0 = \<lparr>kb_cache = Map.empty, constructed = []\<rparr>"

section \<open>The splitter on a text that ends before a break\<close>

lemma isspace_NL [simp]: "isspace NL"
  by (simp add: isspace_def)

lemma match_len_None_iff:
  "match_len (c # cs) = None \<longleftrightarrow> \<not> (c = NL \<and> NL \<in> set (takeWhile isspace cs))"
  by (simp add: match_len_def Let_def)

lemma re_search_None_iff: "re_search s = None \<longleftrightarrow> \<not> has_blank_line s"
proof (induction s)
  case Nil
  then show ?case by simp
next
  case (Cons c cs)
  show ?case
  proof (cases "match_len (c # cs)")
    case None
    then show ?thesis using Cons.IH match_len_None_iff [of c cs] by auto
  next
    case (Some n)
    then have "\<not> match_len (c # cs) = None" by simp
    then show ?thesis using Some unfolding match_len_None_iff by simp
  qed
qed

lemma has_blank_line_iff:
  "has_blank_line s \<longleftrightarrow> (\<exists>a g b. s = a @ NL # g @ NL # b \<and> list_all isspace g)"
proof
  assume "has_blank_line s"
  then show "\<exists>a g b. s = a @ NL # g @ NL # b \<and> list_all isspace g"
  proof (induction s)
    case Nil
    then show ?case by simp
  next
    case (Cons c cs)
    show ?case
    proof (cases "c = NL \<and> NL \<in> set (takeWhile isspace cs)")
      case True
      then obtain g r where t: "takeWhile isspace cs = g @ NL # r"
        by (auto dest: split_list)
      have "list_all isspace (takeWhile isspace cs)"
        by (auto simp: list_all_iff dest: set_takeWhileD)
      with t have g: "list_all isspace g" by simp
      have "cs = takeWhile isspace cs @ dropWhile isspace cs" by simp
      with t have "c # cs = [] @ NL # g @ NL # (r @ dropWhile isspace cs)"
        using True by simp
      with g show ?thesis by blast
    next
      case False
      with Cons.prems have "has_blank_line cs" by auto
      from Cons.IH [OF this] obtain a g b where
        "cs = a @ NL # g @ NL # b" "list_all isspace g"
        by blast
      then have "c # cs = (c # a) @ NL # g @ NL # b \<and> list_all isspace g" by simp
      then show ?thesis by blast
    qed
  qed
next
  assume "\<exists>a g b. s = a @ NL # g @ NL # b \<and> list_all isspace g"
  then obtain a g b where s: "s = a @ NL # g @ NL # b" and g: "list_all isspace g"
    by blast
  have "takeWhile isspace (g @ NL # b) = g @ takeWhile isspace (NL # b)"
    using g by (intro takeWhile_append2) (auto simp: list_all_iff)
  then have "has_blank_line (NL # g @ NL # b)" by simp
  then show "has_blank_line s"
    unfolding s by (induction a) simp_all
qed

lemma closed_end_Nil [simp]: "closed_end []"
  by (simp add: closed_end_def)

lemma closed_end_tl: "closed_end (c # cs) \<Longrightarrow> closed_end cs"
proof -
  assume a: "closed_end (c # cs)"
  show ?thesis
  proof (cases "list_all isspace cs")
    case True
    then have "takeWhile isspace (rev cs @ [c]) = rev cs @ takeWhile isspace [c]"
      by (intro takeWhile_append2) (auto simp: list_all_iff)
    with a have "NL \<notin> set (rev cs)" by (auto simp: closed_end_def)
    then show ?thesis by (auto simp: closed_end_def dest: set_takeWhileD)
  next
    case False
    then obtain x where "x \<in> set (rev cs)" "\<not> isspace x" by (auto simp: list_all_iff)
    then have "takeWhile isspace (rev cs @ [c]) = takeWhile isspace (rev cs)"
      by (rule takeWhile_append1)
    with a show ?thesis by (simp add: closed_end_def)
  qed
qed

lemma closed_end_drop: "closed_end x \<Longrightarrow> closed_end (drop k x)"
  by (induction x arbitrary: k) (auto simp: drop_Cons dest: closed_end_tl split: nat.splits)

lemma closed_end_NL_follow:
  assumes "closed_end (NL # cs)"
  shows "\<exists>x\<in>set cs. \<not> isspace x"
proof (rule ccontr)
  assume "\<not> ?thesis"
  then have "takeWhile isspace (rev cs @ [NL]) = rev cs @ takeWhile isspace [NL]"
    by (intro takeWhile_append2) auto
  with assms show False by (simp add: closed_end_def)
qed

lemma match_len_append:
  assumes "closed_end (c # cs)"
  shows "match_len ((c # cs) @ z) = match_len (c # cs)"
proof (cases "c = NL")
  case True
  with assms obtain x where "x \<in> set cs" "\<not> isspace x"
    using closed_end_NL_follow by blast
  then have "takeWhile isspace (cs @ z) = takeWhile isspace cs"
    by (rule takeWhile_append1)
  then show ?thesis by (simp add: match_len_def)
next
  case False
  then show ?thesis by (simp add: match_len_def)
qed

lemma re_search_append:
  "closed_end x \<Longrightarrow>
   re_search (x @ z) =
     (case re_search x of
        Some r \<Rightarrow> Some r
      | None \<Rightarrow> map_option (\<lambda>(i, n). (length x + i, n)) (re_search z))"
proof (induction x)
  case Nil
  then show ?case by (simp add: option.map_ident case_prod_unfold)
next
  case (Cons c cs)
  have m: "match_len (c # cs @ z) = match_len (c # cs)"
    using match_len_append [OF Cons.prems] by simp
  have ih: "re_search (cs @ z) =
     (case re_search cs of
        Some r \<Rightarrow> Some r
      | None \<Rightarrow> map_option (\<lambda>(i, n). (length cs + i, n)) (re_search z))"
    using Cons.IH closed_end_tl [OF Cons.prems] by simp
  show ?case
  proof (cases "match_len (c # cs)")
    case (Some n)
    then show ?thesis using m by simp
  next
    case None
    then show ?thesis using m ih
      by (auto simp: option.map_comp comp_def case_prod_unfold split: option.splits)
  qed
qed

lemma re_search_start:
  "match_len z = Some n \<Longrightarrow> re_search z = Some (0, n)"
  by (cases z) (auto simp: match_len_def)

lemma re_split_None: "re_search s = None \<Longrightarrow> re_split s = [s]"
  by (simp add: re_split.simps)

lemma re_split_Some:
  "re_search s = Some (i, n) \<Longrightarrow> re_split s = take i s # re_split (drop (i + n) s)"
  by (simp add: re_split.simps)

lemma re_split_append:
  "closed_end x \<Longrightarrow> match_len z = Some n \<Longrightarrow>
   re_split (x @ z) = re_split x @ re_split (drop n z)"
proof (induction x rule: re_split.induct)
  case (1 s)
  show ?case
  proof (cases "re_search s")
    case None
    with 1 have "re_search (s @ z) = Some (length s, n)"
      by (simp add: re_search_append re_search_start)
    then show ?thesis using None
      by (simp add: re_split_Some re_split_None)
  next
    case (Some r)
    obtain i m where r: "r = (i, m)" by (cases r)
    with Some have s: "re_search s = Some (i, m)" by simp
    from re_search_bounds [OF s] have b: "i + m \<le> length s" by simp
    from 1 s have sz: "re_search (s @ z) = Some (i, m)"
      by (simp add: re_search_append)
    have "re_split (drop (i + m) s @ z) = re_split (drop (i + m) s) @ re_split (drop n z)"
      using "1.IH" [OF Some r [symmetric]] "1.prems" closed_end_drop by blast
    then show ?thesis using b s sz
      by (simp add: re_split_Some [OF s] re_split_Some [OF sz])
  qed
qed

lemma match_len_exact:
  assumes "list_all isspace a" "open_start b"
  shows "match_len (NL # a @ NL # b) = Some (length a + 2)"
proof -
  have run: "takeWhile isspace (a @ NL # b) = a @ NL # takeWhile isspace b"
    using assms(1) by (simp add: takeWhile_append2 list_all_iff)
  have "takeWhile (\<lambda>x. x \<noteq> NL) (rev (takeWhile isspace b) @ NL # rev a) =
        rev (takeWhile isspace b) @ takeWhile (\<lambda>x. x \<noteq> NL) (NL # rev a)"
    using assms(2) by (intro takeWhile_append2) (auto simp: open_start_def)
  then have "length (takeWhile (\<lambda>x. x \<noteq> NL) (rev (a @ NL # takeWhile isspace b))) =
        length (takeWhile isspace b)"
    by simp
  then show ?thesis
    by (simp add: match_len_def run del: rev_append)
qed

lemma no_NL_search: "NL \<notin> set s \<Longrightarrow> re_search s = None"
  by (induction s) (auto simp: match_len_def)

lemma closed_end_append:
  assumes "closed_end a" "NL \<notin> set b"
  shows "closed_end (a @ b)"
proof (cases "list_all isspace b")
  case True
  then have "takeWhile isspace (rev b @ rev a) = rev b @ takeWhile isspace (rev a)"
    by (intro takeWhile_append2) (auto simp: list_all_iff)
  then show ?thesis using assms by (simp add: closed_end_def)
next
  case False
  then obtain x where "x \<in> set (rev b)" "\<not> isspace x" by (auto simp: list_all_iff)
  then have "takeWhile isspace (rev b @ rev a) = takeWhile isspace (rev b)"
    by (rule takeWhile_append1)
  then show ?thesis using assms(2) by (auto simp: closed_end_def dest: set_takeWhileD)
qed

lemma closed_end_last: "p \<noteq> [] \<Longrightarrow> \<not> isspace (last p) \<Longrightarrow> closed_end p"
  by (cases p rule: rev_cases) (auto simp: closed_end_def)

lemma closed_end_prepend: "closed_end p \<Longrightarrow> p \<noteq> [] \<Longrightarrow> \<not> isspace (last p) \<Longrightarrow> closed_end (w @ p)"
  by (cases p rule: rev_cases) (auto simp: closed_end_def)

lemma open_start_ws:
  "list_all isspace g \<Longrightarrow> NL \<notin> set g \<Longrightarrow> y \<noteq> [] \<Longrightarrow> \<not> isspace (hd y) \<Longrightarrow> open_start (g @ y)"
proof -
  assume a: "list_all isspace g" "NL \<notin> set g" "y \<noteq> []" "\<not> isspace (hd y)"
  then obtain c cs where y: "y = c # cs" by (cases y) auto
  have "takeWhile isspace (g @ y) = g @ takeWhile isspace y"
    using a(1) by (intro takeWhile_append2) (auto simp: list_all_iff)
  then show ?thesis using a y by (simp add: open_start_def)
qed

lemma gap_decomp:
  assumes "blank_gap g"
  shows "\<exists>g1 a g2. g = g1 @ NL # a @ NL # g2 \<and> NL \<notin> set g1 \<and> NL \<notin> set g2 \<and>
           list_all isspace g1 \<and> list_all isspace a \<and> list_all isspace g2"
proof -
  from assms have ws: "list_all isspace g" and c: "2 \<le> count_list g NL"
    by (simp_all add: blank_gap_def)
  from c have "NL \<in> set g" by (metis count_list_0_iff not_numeral_le_zero)
  then obtain g1 r where g: "g = g1 @ NL # r" and g1: "NL \<notin> set g1"
    by (auto dest: split_list_first)
  from g1 have "count_list g1 NL = 0" by (simp add: count_list_0_iff)
  with c g have "1 \<le> count_list r NL" by simp
  then have "NL \<in> set r" by (metis count_list_0_iff not_one_le_zero)
  then obtain a g2 where r: "r = a @ NL # g2" and g2: "NL \<notin> set g2"
    by (auto dest: split_list_last)
  from ws g r have "list_all isspace g1" "list_all isspace a" "list_all isspace g2"
    by simp_all
  with g r g1 g2 show ?thesis by blast
qed

lemma para_search:
  assumes "list_all isspace w" "NL \<notin> set w" "is_para p" "NL \<notin> set g1"
  shows "re_search (w @ p @ g1) = None"
proof -
  from assms(3) have p: "p \<noteq> []" "\<not> isspace (last p)" "re_search p = None"
    by (simp_all add: is_para_def re_search_None_iff)
  have cw: "closed_end w"
    using assms(2) closed_end_append [of "[]" w] by simp
  have cp: "closed_end p" using p by (simp add: closed_end_last)
  have "re_search (p @ g1) = None"
    using re_search_append [OF cp, of g1] p(3) no_NL_search [OF assms(4)] by simp
  then show ?thesis
    using re_search_append [OF cw, of "p @ g1"] no_NL_search [OF assms(2)] by simp
qed

lemma para_then_gap:
  assumes "list_all isspace w" "NL \<notin> set w" "is_para p" "blank_gap g"
    "y \<noteq> []" "\<not> isspace (hd y)"
  shows "\<exists>g1 g2. list_all isspace g1 \<and> list_all isspace g2 \<and> NL \<notin> set g2 \<and>
           re_split (w @ p @ g @ y) = (w @ p @ g1) # re_split (g2 @ y)"
proof -
  from gap_decomp [OF assms(4)] obtain g1 a g2 where
    g: "g = g1 @ NL # a @ NL # g2" and n1: "NL \<notin> set g1" and n2: "NL \<notin> set g2" and
    w1: "list_all isspace g1" and wa: "list_all isspace a" and w2: "list_all isspace g2"
    by blast
  from assms(3) have p: "p \<noteq> []" "\<not> isspace (last p)"
    by (simp_all add: is_para_def)
  have "closed_end (p @ g1)"
    using closed_end_append [OF closed_end_last [OF p] n1] .
  moreover have "p @ g1 \<noteq> []" using p by simp
  ultimately have cx: "closed_end (w @ p @ g1)"
    using closed_end_append [OF closed_end_prepend [OF closed_end_last [OF p] p, of w] n1]
    by simp
  have os: "open_start (g2 @ y)"
    using open_start_ws [OF w2 n2 assms(5,6)] .
  have m: "match_len (NL # a @ NL # g2 @ y) = Some (length a + 2)"
    using match_len_exact [OF wa os] by simp
  have "re_split ((w @ p @ g1) @ NL # a @ NL # g2 @ y) =
        re_split (w @ p @ g1) @ re_split (drop (length a + 2) (NL # a @ NL # g2 @ y))"
    using re_split_append [OF cx m] .
  moreover have "re_split (w @ p @ g1) = [w @ p @ g1]"
    using para_search [OF assms(1,2,3) n1] by (rule re_split_None)
  ultimately have "re_split (w @ p @ g @ y) = (w @ p @ g1) # re_split (g2 @ y)"
    using g by simp
  with w1 w2 n2 show ?thesis by blast
qed

lemma strip_core:
  assumes "list_all isspace l" "list_all isspace t" "b \<noteq> []"
    "\<not> isspace (hd b)" "\<not> isspace (last b)"
  shows "strip (l @ b @ t) = b"
proof -
  from assms(3,4) obtain c cs where b: "b = c # cs" "\<not> isspace c" by (cases b) auto
  from assms(3,5) obtain ds d where b': "b = ds @ [d]" "\<not> isspace d"
    by (cases b rule: rev_cases) auto
  have "dropWhile isspace (l @ b @ t) = dropWhile isspace (b @ t)"
    using assms(1) by (intro dropWhile_append2) (auto simp: list_all_iff)
  then have 1: "dropWhile isspace (l @ b @ t) = b @ t" using b by simp
  have "dropWhile isspace (rev t @ rev b) = dropWhile isspace (rev b)"
    using assms(2) by (intro dropWhile_append2) (auto simp: list_all_iff)
  then have "dropWhile isspace (rev (b @ t)) = rev b" using b' by simp
  with 1 show ?thesis by (simp add: strip_def)
qed

lemma corpus_of_Cons: "corpus_of p0 ((g, p) # rest) = p0 @ g @ corpus_of p rest"
  by (simp add: corpus_of_def)

lemma corpus_of_last:
  "is_para p \<Longrightarrow> \<forall>(g, q)\<in>set rest. blank_gap g \<and> is_para q \<Longrightarrow>
   \<not> isspace (last (corpus_of p rest))"
proof (induction rest arbitrary: p)
  case Nil
  then show ?case by (simp add: corpus_of_def is_para_def)
next
  case (Cons a rest)
  obtain g q where a: "a = (g, q)" by (cases a)
  with Cons.prems have q: "is_para q" "\<forall>(g, q)\<in>set rest. blank_gap g \<and> is_para q"
    by simp_all
  then have "corpus_of q rest \<noteq> []" by (simp add: corpus_of_def is_para_def)
  then show ?case using Cons.IH [OF q] a by (simp add: corpus_of_Cons)
qed

lemma split_paragraphs:
  "list_all isspace w \<Longrightarrow> NL \<notin> set w \<Longrightarrow> is_para p0 \<Longrightarrow>
   \<forall>(g, q)\<in>set rest. blank_gap g \<and> is_para q \<Longrightarrow>
   map strip (re_split (w @ corpus_of p0 rest)) = p0 # map snd rest"
proof (induction rest arbitrary: w p0)
  case Nil
  have "re_search (w @ p0 @ []) = None"
    using para_search [OF Nil(1,2,3), of "[]"] by simp
  then have "re_split (w @ p0) = [w @ p0]" by (simp add: re_split_None)
  moreover have "strip (w @ p0 @ []) = p0"
    using Nil(1,3) by (intro strip_core) (simp_all add: is_para_def)
  ultimately show ?case by (simp add: corpus_of_def)
next
  case (Cons a rest)
  obtain g q where a: "a = (g, q)" by (cases a)
  with Cons.prems have g: "blank_gap g" and q: "is_para q"
    and r: "\<forall>(g, q)\<in>set rest. blank_gap g \<and> is_para q"
    by simp_all
  from q have y: "corpus_of q rest \<noteq> []" "\<not> isspace (hd (corpus_of q rest))"
    by (simp_all add: corpus_of_def is_para_def)
  from para_then_gap [OF Cons.prems(1,2,3) g y] obtain g1 g2 where
    w1: "list_all isspace g1" and w2: "list_all isspace g2" and n2: "NL \<notin> set g2" and
    s: "re_split (w @ p0 @ g @ corpus_of q rest) = (w @ p0 @ g1) # re_split (g2 @ corpus_of q rest)"
    by blast
  have "strip (w @ p0 @ g1) = p0"
    using Cons.prems(1,3) w1 by (intro strip_core) (simp_all add: is_para_def)
  then show ?case
    using s Cons.IH [OF w2 n2 q r] a by (simp add: corpus_of_Cons)
qed

lemma strip_Nil [simp]: "strip [] = []"
  by (simp add: strip_def)

lemma corpus_of_paragraphs:
  assumes "list_all isspace lead" "list_all isspace trail" "is_para p"
    "\<forall>(g, q)\<in>set rest. blank_gap g \<and> is_para q"
  shows "map strip (chunker (lead @ corpus_of p rest @ trail)) = p # map snd rest"
proof -
  have b: "corpus_of p rest \<noteq> []" "\<not> isspace (hd (corpus_of p rest))"
    using assms(3) by (simp_all add: corpus_of_def is_para_def)
  have "strip (lead @ corpus_of p rest @ trail) = corpus_of p rest"
    using assms(1,2) b corpus_of_last [OF assms(3,4)] by (rule strip_core)
  then show ?thesis
    using split_paragraphs [OF _ _ assms(3,4), of "[]"] by (simp add: chunker_def)
qed

section \<open>The corpus of documents and their headers\<close>

lemma re_split_sublist: "x \<in> set (re_split s) \<Longrightarrow> sublist x s"
proof (induction s rule: re_split.induct)
  case (1 s)
  show ?case
  proof (cases "re_search s")
    case None
    with 1 show ?thesis by (simp add: re_split_None)
  next
    case (Some r)
    obtain i n where r: "r = (i, n)" by (cases r)
    with Some have s: "re_search s = Some (i, n)" by simp
    from "1.prems" have "x = take i s \<or> x \<in> set (re_split (drop (i + n) s))"
      by (simp add: re_split_Some [OF s])
    then show ?thesis
    proof
      assume "x = take i s"
      then show ?thesis by simp
    next
      assume "x \<in> set (re_split (drop (i + n) s))"
      then have "sublist x (drop (i + n) s)"
        using "1.IH" [OF Some r [symmetric]] by simp
      then show ?thesis
        using sublist_drop [of "i + n" s] sublist_order.order_trans by blast
    qed
  qed
qed

lemma tail_decomp:
  "\<exists>x t. c = x @ t \<and> closed_end x \<and> list_all isspace t \<and> (t = [] \<or> hd t = NL)"
proof (induction c rule: rev_induct)
  case Nil
  then show ?case by simp
next
  case (snoc a s)
  then obtain x t where s: "s = x @ t" and cx: "closed_end x" and wt: "list_all isspace t"
    and t: "t = [] \<or> hd t = NL"
    by blast
  show ?case
  proof (cases "isspace a")
    case False
    then have "closed_end (s @ [a])" by (simp add: closed_end_def)
    then have "s @ [a] = (s @ [a]) @ [] \<and> closed_end (s @ [a]) \<and> list_all isspace [] \<and>
        ([] = [] \<or> hd [] = NL)"
      by simp
    then show ?thesis by blast
  next
    case True
    show ?thesis
    proof (cases "t = []")
      case False
      with t have "hd (t @ [a]) = NL" by simp
      with s cx wt True have "s @ [a] = x @ (t @ [a]) \<and> closed_end x \<and>
          list_all isspace (t @ [a]) \<and> (t @ [a] = [] \<or> hd (t @ [a]) = NL)"
        by simp
      then show ?thesis by blast
    next
      case tn: True
      show ?thesis
      proof (cases "a = NL")
        case True
        with s tn cx have "s @ [a] = x @ [NL] \<and> closed_end x \<and> list_all isspace [NL] \<and>
            ([NL] = [] \<or> hd [NL] = NL)"
          by simp
        then show ?thesis by blast
      next
        case False
        then have "closed_end (x @ [a])"
          using closed_end_append [OF cx, of "[a]"] by simp
        with s tn have "s @ [a] = (x @ [a]) @ [] \<and> closed_end (x @ [a]) \<and>
            list_all isspace [] \<and> ([] = [] \<or> hd [] = NL)"
          by simp
        then show ?thesis by blast
      qed
    qed
  qed
qed

lemma drop_prefix_len: "length p = n \<Longrightarrow> drop n (p @ r) = r"
  by simp

lemma open_start_nonws: "y \<noteq> [] \<Longrightarrow> \<not> isspace (hd y) \<Longrightarrow> open_start y"
  using open_start_ws [of "[]" y] by simp

lemma split_before_break:
  assumes "y \<noteq> []" "\<not> isspace (hd y)"
  shows "\<exists>cs. re_split (c @ NL # NL # y) = cs @ re_split y \<and> (\<forall>x\<in>set cs. sublist x c)"
proof -
  from tail_decomp [of c] obtain x t where c: "c = x @ t" and cx: "closed_end x"
    and wt: "list_all isspace t" and t: "t = [] \<or> hd t = NL"
    by blast
  have oy: "open_start y" using assms by (rule open_start_nonws)
  have m: "match_len (t @ NL # NL # y) = Some (length t + 2)"
  proof (cases t)
    case Nil
    then show ?thesis using match_len_exact [of "[]" y] oy by simp
  next
    case (Cons a t')
    with t have "a = NL" by simp
    moreover have "list_all isspace (t' @ [NL])" using wt Cons by simp
    ultimately show ?thesis
      using match_len_exact [of "t' @ [NL]" y] oy Cons by simp
  qed
  have "re_split (x @ t @ NL # NL # y) = re_split x @ re_split (drop (length t + 2) (t @ NL # NL # y))"
    using re_split_append [OF cx m] .
  moreover have "drop (length t + 2) (t @ NL # NL # y) = y"
    using drop_prefix_len [of "t @ [NL, NL]" "length t + 2" y] by simp
  ultimately have "re_split (c @ NL # NL # y) = re_split x @ re_split y"
    using c by simp
  moreover have "\<forall>p\<in>set (re_split x). sublist p c"
  proof
    fix p assume "p \<in> set (re_split x)"
    then have "sublist p x" by (rule re_split_sublist)
    moreover have "sublist x c" unfolding c by simp
    ultimately show "sublist p c" using sublist_order.order_trans by blast
  qed
  ultimately show ?thesis by blast
qed

lemma match_after_header:
  assumes "y \<noteq> []" "\<not> isspace (hd y)"
  shows "\<exists>n c'. match_len (NL # NL # c @ NL # NL # y) = Some n \<and>
           (drop n (NL # NL # c @ NL # NL # y) = y \<or>
            (drop n (NL # NL # c @ NL # NL # y) = c' @ NL # NL # y \<and> suffix c' c))"
proof (cases "list_all isspace c")
  case True
  have oy: "open_start y" using assms by (rule open_start_nonws)
  have "list_all isspace (NL # c @ [NL])" using True by simp
  from match_len_exact [OF this oy]
  have "match_len (NL # NL # c @ NL # NL # y) = Some (length c + 4)" by simp
  moreover have "drop (length c + 4) (NL # NL # c @ NL # NL # y) = y"
    using drop_prefix_len [of "NL # NL # c @ [NL, NL]" "length c + 4" y] by simp
  ultimately show ?thesis by blast
next
  case False
  define l where "l = takeWhile isspace c"
  define c0 where "c0 = dropWhile isspace c"
  have c: "c = l @ c0" by (simp add: l_def c0_def)
  have wl: "list_all isspace l"
    by (auto simp: l_def list_all_iff dest: set_takeWhileD)
  from False have c0: "c0 \<noteq> []" "\<not> isspace (hd c0)"
    unfolding c0_def by (auto simp: list_all_iff hd_dropWhile)
  show ?thesis
  proof (cases "NL \<in> set l")
    case False
    have "open_start (l @ c0 @ NL # NL # y)"
      using open_start_ws [OF wl False, of "c0 @ NL # NL # y"] c0 by simp
    from match_len_exact [of "[]", OF _ this]
    have "match_len (NL # NL # c @ NL # NL # y) = Some 2" by (simp add: c)
    moreover have "drop 2 (NL # NL # c @ NL # NL # y) = c @ NL # NL # y" by simp
    ultimately show ?thesis by (metis suffix_order.order_refl)
  next
    case True
    then obtain l1 l2 where l: "l = l1 @ NL # l2" and l2: "NL \<notin> set l2"
      by (auto dest: split_list_last)
    from wl l have w1: "list_all isspace (NL # l1)" and w2: "list_all isspace l2"
      by simp_all
    have "open_start (l2 @ c0 @ NL # NL # y)"
      using open_start_ws [OF w2 l2, of "c0 @ NL # NL # y"] c0 by simp
    from match_len_exact [OF w1 this]
    have "match_len (NL # NL # c @ NL # NL # y) = Some (length l1 + 3)"
      by (simp add: c l)
    moreover have "drop (length l1 + 3) (NL # NL # c @ NL # NL # y) = (l2 @ c0) @ NL # NL # y"
      using drop_prefix_len [of "NL # NL # l1 @ [NL]" "length l1 + 3" "(l2 @ c0) @ NL # NL # y"]
      by (simp add: c l)
    moreover have "suffix (l2 @ c0) c"
      unfolding c l by (simp add: suffix_def)
    ultimately show ?thesis by blast
  qed
qed

lemma document_then_header:
  assumes "closed_end h" "re_search h = None" "y \<noteq> []" "\<not> isspace (hd y)"
  shows "\<exists>cs. re_split (h @ NL # NL # c @ NL # NL # y) = h # cs @ re_split y \<and>
           (\<forall>x\<in>set cs. sublist x c)"
proof -
  from match_after_header [OF assms(3,4), of c] obtain n c' where
    m: "match_len (NL # NL # c @ NL # NL # y) = Some n" and
    d: "drop n (NL # NL # c @ NL # NL # y) = y \<or>
        (drop n (NL # NL # c @ NL # NL # y) = c' @ NL # NL # y \<and> suffix c' c)"
    by blast
  have s: "re_split (h @ NL # NL # c @ NL # NL # y) =
        h # re_split (drop n (NL # NL # c @ NL # NL # y))"
    using re_split_append [OF assms(1) m] re_split_None [OF assms(2)] by simp
  from d show ?thesis
  proof
    assume "drop n (NL # NL # c @ NL # NL # y) = y"
    with s have "re_split (h @ NL # NL # c @ NL # NL # y) = h # [] @ re_split y" by simp
    then show ?thesis by (metis empty_iff list.set(1))
  next
    assume a: "drop n (NL # NL # c @ NL # NL # y) = c' @ NL # NL # y \<and> suffix c' c"
    from split_before_break [OF assms(3,4), of c'] obtain cs where
      cs: "re_split (c' @ NL # NL # y) = cs @ re_split y" "\<forall>x\<in>set cs. sublist x c'"
      by blast
    have "\<forall>x\<in>set cs. sublist x c"
    proof
      fix x assume "x \<in> set cs"
      with cs(2) have "sublist x c'" by simp
      moreover from a have "sublist c' c" by simp
      ultimately show "sublist x c" using sublist_order.order_trans by blast
    qed
    with s a cs(1) show ?thesis by simp
  qed
qed

lemma isspace_hash [simp]: "\<not> isspace 35" "\<not> isspace 100"
  by (simp_all add: isspace_def)

lemma strip_rstrip: "strip s = rstrip (dropWhile isspace s)"
  by (simp add: strip_def rstrip_def)

lemma rstrip_ws: "list_all isspace b \<Longrightarrow> rstrip b = []"
  by (simp add: rstrip_def list_all_iff)

lemma rstrip_keep:
  assumes "x \<in> set b" "\<not> isspace x"
  shows "rstrip (a @ b) = a @ rstrip b"
proof -
  from assms have "x \<in> set (rev b)" by simp
  then have "dropWhile isspace (rev b @ rev a) = dropWhile isspace (rev b) @ rev a"
    using assms(2) by (rule dropWhile_append1)
  then show ?thesis by (simp add: rstrip_def)
qed

lemma rstrip_after:
  assumes "a \<noteq> []" "\<not> isspace (last a)"
  shows "rstrip (a @ b) = a @ rstrip b"
proof (cases "list_all isspace b")
  case True
  from assms obtain as x where a: "a = as @ [x]" "\<not> isspace x"
    by (cases a rule: rev_cases) auto
  have "dropWhile isspace (rev b @ rev a) = dropWhile isspace (rev a)"
    using True by (intro dropWhile_append2) (auto simp: list_all_iff)
  then have "rstrip (a @ b) = a" using a by (simp add: rstrip_def)
  then show ?thesis using True by (simp add: rstrip_ws)
next
  case False
  then obtain x where "x \<in> set b" "\<not> isspace x" by (auto simp: list_all_iff)
  then show ?thesis by (rule rstrip_keep)
qed

lemma rstrip_sublist: "sublist (rstrip s) s"
proof -
  have "suffix (dropWhile isspace (rev s)) (rev s)" by (rule suffix_dropWhile)
  then have "prefix (rstrip s) s" by (simp add: suffix_to_prefix rstrip_def)
  then show ?thesis by simp
qed

lemma endswith_md_last:
  assumes "endswith f (u ''.md'')"
  shows "f \<noteq> [] \<and> last f = 100"
proof -
  from assms have "drop (length f - length (u ''.md'')) f = u ''.md''"
    by (simp add: endswith_def)
  then have "f = take (length f - length (u ''.md'')) f @ u ''.md''"
    by (metis append_take_drop_id)
  then obtain p where "f = p @ u ''.md''" ..
  then show ?thesis by (simp add: u_def)
qed

lemma header_facts:
  assumes "endswith f (u ''.md'')" "\<not> has_blank_line f"
  shows "provenance_header f \<noteq> []" "hd (provenance_header f) = 35"
    "\<not> isspace (last (provenance_header f))" "closed_end (provenance_header f)"
    "re_search (provenance_header f) = None"
proof -
  from endswith_md_last [OF assms(1)] have f: "f \<noteq> []" "last f = 100" by simp_all
  show 1: "provenance_header f \<noteq> []" and "hd (provenance_header f) = 35"
    by (simp_all add: provenance_header_def u_def)
  show 3: "\<not> isspace (last (provenance_header f))"
    using f by (simp add: provenance_header_def)
  from 1 3 show "closed_end (provenance_header f)" by (rule closed_end_last)
  have n: "NL \<notin> set (u ''# Source: '')" by (simp add: u_def)
  have "closed_end (u ''# Source: '')"
    using closed_end_append [OF closed_end_Nil n] by simp
  from re_search_append [OF this, of f] show "re_search (provenance_header f) = None"
    using no_NL_search [OF n] assms(2)
    by (simp add: provenance_header_def re_search_None_iff)
qed

lemma last_document:
  assumes "closed_end h" "re_search h = None"
  shows "\<exists>cs. re_split (h @ rstrip (NL # NL # c)) = h # cs \<and> (\<forall>x\<in>set cs. sublist x c)"
proof (cases "list_all isspace c")
  case True
  then have "rstrip (NL # NL # c) = []" by (simp add: rstrip_ws)
  then have "re_split (h @ rstrip (NL # NL # c)) = h # []"
    using re_split_None [OF assms(2)] by simp
  then show ?thesis by (metis empty_iff list.set(1))
next
  case False
  then obtain x where "x \<in> set c" "\<not> isspace x" by (auto simp: list_all_iff)
  from rstrip_keep [OF this, of "[NL, NL]"]
  have r: "rstrip (NL # NL # c) = NL # NL # rstrip c" by simp
  have "match_len (NL # NL # rstrip c) \<noteq> None"
    unfolding match_len_None_iff by simp
  then obtain n where m: "match_len (NL # NL # rstrip c) = Some n" by blast
  from match_len_bounds [OF m] have n: "2 \<le> n" by simp
  have s: "re_split (h @ rstrip (NL # NL # c)) = h # re_split (drop n (NL # NL # rstrip c))"
    using re_split_append [OF assms(1) m] re_split_None [OF assms(2)] r by simp
  have d: "drop n (NL # NL # rstrip c) = drop (n - 2) (rstrip c)"
    using n by (simp add: drop_Cons' numeral_2_eq_2)
  have "\<forall>x\<in>set (re_split (drop n (NL # NL # rstrip c))). sublist x c"
  proof
    fix x assume "x \<in> set (re_split (drop n (NL # NL # rstrip c)))"
    then have "sublist x (drop (n - 2) (rstrip c))"
      unfolding d by (rule re_split_sublist)
    moreover have "sublist (drop (n - 2) (rstrip c)) (rstrip c)" by simp
    ultimately have "sublist x (rstrip c)" using sublist_order.order_trans by blast
    then show "sublist x c" using rstrip_sublist sublist_order.order_trans by blast
  qed
  with s show ?thesis by blast
qed

lemma entry_unfold: "entry (f, c) = NL # NL # provenance_header f @ NL # NL # c"
  by (simp add: entry_def u_def)

lemma split_documents:
  "\<forall>(f, c)\<in>set (d # ds). endswith f (u ''.md'') \<and> \<not> has_blank_line f \<Longrightarrow>
   \<exists>css. length css = length (d # ds) \<and>
     re_split (provenance_header (fst d) @ rstrip (NL # NL # snd d @ concat (map entry ds))) =
       concat (map2 (\<lambda>doc cs. provenance_header (fst doc) # cs) (d # ds) css) \<and>
     list_all2 (\<lambda>doc cs. \<forall>x\<in>set cs. sublist x (snd doc)) (d # ds) css"
proof (induction ds arbitrary: d)
  case Nil
  obtain f c where d: "d = (f, c)" by (cases d)
  with Nil have f: "endswith f (u ''.md'')" "\<not> has_blank_line f" by simp_all
  from last_document [OF header_facts(4,5) [OF f], of c] obtain cs where
    "re_split (provenance_header f @ rstrip (NL # NL # c)) = provenance_header f # cs"
    "\<forall>x\<in>set cs. sublist x c"
    by blast
  then have "length [cs] = length [d] \<and>
     re_split (provenance_header (fst d) @ rstrip (NL # NL # snd d @ concat (map entry []))) =
       concat (map2 (\<lambda>doc cs. provenance_header (fst doc) # cs) [d] [cs]) \<and>
     list_all2 (\<lambda>doc cs. \<forall>x\<in>set cs. sublist x (snd doc)) [d] [cs]"
    using d by simp
  then show ?case by blast
next
  case (Cons d' ds)
  obtain f c where d: "d = (f, c)" by (cases d)
  obtain f' c' where d': "d' = (f', c')" by (cases d')
  from Cons.prems d d' have f: "endswith f (u ''.md'')" "\<not> has_blank_line f"
    and f': "endswith f' (u ''.md'')" "\<not> has_blank_line f'"
    and r: "\<forall>(f, c)\<in>set (d' # ds). endswith f (u ''.md'') \<and> \<not> has_blank_line f"
    by simp_all
  let ?h = "provenance_header f" and ?h' = "provenance_header f'"
  let ?t = "rstrip (NL # NL # c' @ concat (map entry ds))"
  from Cons.IH [OF r] d' obtain css where
    l: "length css = length (d' # ds)" and
    s: "re_split (?h' @ ?t) =
         concat (map2 (\<lambda>doc cs. provenance_header (fst doc) # cs) (d' # ds) css)" and
    a: "list_all2 (\<lambda>doc cs. \<forall>x\<in>set cs. sublist x (snd doc)) (d' # ds) css"
    by auto
  have h': "?h' = 35 # tl ?h'"
    using header_facts(1,2) [OF f'] by (cases ?h') simp_all
  have "35 \<in> set (?h' @ NL # NL # c' @ concat (map entry ds))"
    using h' by (metis append_Cons list.set_intros(1))
  from rstrip_keep [OF this, of "NL # NL # c @ [NL, NL]"]
  have "rstrip (NL # NL # c @ NL # NL # ?h' @ NL # NL # c' @ concat (map entry ds)) =
        NL # NL # c @ NL # NL # rstrip (?h' @ NL # NL # c' @ concat (map entry ds))"
    by simp
  also have "rstrip (?h' @ NL # NL # c' @ concat (map entry ds)) = ?h' @ ?t"
    using rstrip_after [OF header_facts(1,3) [OF f']] .
  finally have e: "rstrip (NL # NL # snd d @ concat (map entry (d' # ds))) =
        NL # NL # c @ NL # NL # ?h' @ ?t"
    using d d' by (simp add: entry_unfold)
  have y: "?h' @ ?t \<noteq> []" "\<not> isspace (hd (?h' @ ?t))"
    using header_facts(1,2) [OF f'] by simp_all
  from document_then_header [OF header_facts(4,5) [OF f] y, of c] obtain cs where
    cs: "re_split (?h @ NL # NL # c @ NL # NL # ?h' @ ?t) = ?h # cs @ re_split (?h' @ ?t)"
      "\<forall>x\<in>set cs. sublist x c"
    by blast
  have "length (cs # css) = length (d # d' # ds) \<and>
     re_split (provenance_header (fst d) @ rstrip (NL # NL # snd d @ concat (map entry (d' # ds)))) =
       concat (map2 (\<lambda>doc cs. provenance_header (fst doc) # cs) (d # d' # ds) (cs # css)) \<and>
     list_all2 (\<lambda>doc cs. \<forall>x\<in>set cs. sublist x (snd doc)) (d # d' # ds) (cs # css)"
    using l s a cs d unfolding e by simp
  then show ?case by blast
qed

lemma chunker_documents:
  assumes "\<forall>(f, c)\<in>set (d # ds). endswith f (u ''.md'') \<and> \<not> has_blank_line f"
  shows "chunker (concat (map entry (d # ds))) =
     re_split (provenance_header (fst d) @ rstrip (NL # NL # snd d @ concat (map entry ds)))"
proof -
  obtain f c where d: "d = (f, c)" by (cases d)
  with assms have f: "endswith f (u ''.md'')" "\<not> has_blank_line f" by simp_all
  let ?h = "provenance_header f"
  have h: "?h = 35 # tl ?h"
    using header_facts(1,2) [OF f] by (cases ?h) simp_all
  have "dropWhile isspace (NL # NL # ?h @ NL # NL # c @ concat (map entry ds)) =
        dropWhile isspace (?h @ NL # NL # c @ concat (map entry ds))"
    by simp
  also have "\<dots> = ?h @ NL # NL # c @ concat (map entry ds)"
    using h by (metis append_Cons dropWhile.simps(2) isspace_hash(1))
  finally have "strip (concat (map entry (d # ds))) =
        rstrip (?h @ NL # NL # c @ concat (map entry ds))"
    using d by (simp add: strip_rstrip entry_unfold)
  then show ?thesis
    using rstrip_after [OF header_facts(1,3) [OF f]] d by (simp add: chunker_def)
qed

lemma endswith_suffix: "endswith f t \<longleftrightarrow> suffix t f"
proof
  assume "endswith f t"
  then have "f = take (length f - length t) f @ t"
    by (metis append_take_drop_id endswith_def)
  then show "suffix t f" by (rule suffixI)
next
  assume "suffix t f"
  then obtain zs where "f = zs @ t" by (auto simp: suffix_def)
  then show "endswith f t" by (simp add: endswith_def)
qed

lemma read_all_eq:
  "\<forall>f\<in>set files. read_text w (path_join d f) = Some (content f) \<Longrightarrow>
   read_all w d files acc = Inr (acc @ concat (map (\<lambda>f. entry (f, content f)) files))"
  by (induction files arbitrary: acc) (simp_all add: entry_def provenance_header_def u_def)

lemma read_all_Inr:
  "read_all w d files acc = Inr corpus \<Longrightarrow>
   \<forall>f\<in>set files. read_text w (path_join d f) \<noteq> None"
  by (induction files arbitrary: acc) (auto split: option.splits)

section \<open>The index and the lookup of the chunks\<close>

lemma search_row_length:
  "length (search_row ix q k) = min k (length (vectors ix))"
  by (simp add: search_row_def)

lemma search_row_sorted: "sorted (map snd (search_row ix q k))"
proof -
  have "sorted (map snd (sort_key snd (zip [0..<length (vectors ix)] (map (l2sqr q) (vectors ix)))))"
    by (rule sorted_sort_key)
  then show ?thesis
    by (simp add: search_row_def take_map [symmetric] sorted_wrt_take)
qed

lemma search_row_entries:
  assumes "(i, dst) \<in> set (search_row ix q k)"
  shows "i < length (vectors ix) \<and> dst = l2sqr q (vectors ix ! i)"
proof -
  from assms have "(i, dst) \<in> set (zip [0..<length (vectors ix)] (map (l2sqr q) (vectors ix)))"
    by (auto simp: search_row_def dest: in_set_takeD)
  then show ?thesis by (auto simp: set_zip)
qed


lemma search_row_nearest:
  assumes "j < length (vectors ix)" "j \<notin> fst ` set (search_row ix q k)"
    "(i, dst) \<in> set (search_row ix q k)"
  shows "dst \<le> l2sqr q (vectors ix ! j)"
proof -
  let ?ps = "zip [0..<length (vectors ix)] (map (l2sqr q) (vectors ix))"
  let ?s = "sort_key snd ?ps"
  have "(j, l2sqr q (vectors ix ! j)) \<in> set ?ps"
    using assms(1) by (simp add: set_zip) (rule exI [of _ j], simp)
  moreover have "set ?ps = set (take k ?s) \<union> set (drop k ?s)"
    using set_append [of "take k ?s" "drop k ?s"] by simp
  moreover have "(j, l2sqr q (vectors ix ! j)) \<notin> set (take k ?s)"
    using assms(2) by (force simp: search_row_def)
  ultimately have d: "(j, l2sqr q (vectors ix ! j)) \<in> set (drop k ?s)"
    by auto
  have "sorted (map snd (take k ?s @ drop k ?s))"
    using sorted_sort_key [of snd ?ps] by simp
  then have "\<forall>x\<in>set (take k ?s). \<forall>y\<in>set (drop k ?s). snd x \<le> snd y"
    unfolding map_append sorted_append by auto
  with d assms(3) show ?thesis by (force simp: search_row_def)
qed

lemma search_row_zero: "search_row ix q 0 = []"
  by (simp add: search_row_def)

lemma getitems_Inr:
  "\<forall>i\<in>set idx. i < length xs \<Longrightarrow> getitems xs idx = Inr (map ((!) xs) idx)"
  by (induction idx) (simp_all add: getitem_def)


lemma KnowledgeBase_init_Inr:
  assumes "KnowledgeBase_init w d = Inr kb"
  shows "\<exists>corpus m.
           load_files w \<lparr>kb_dir = d, chunks = [], model = None, index = None\<rparr> = Inr corpus \<and>
           SentenceTransformer w = Some m \<and>
           kb_dir kb = d \<and> chunks kb = chunker corpus \<and> model kb = Some m \<and>
           list_all (\<lambda>v. length v = length (m (hidden w) (hd (chunker corpus))))
             (map (m (hidden w)) (chunker corpus)) \<and>
           index kb = Some \<lparr>dimension = length (m (hidden w) (hd (chunker corpus))),
                            vectors = map (m (hidden w)) (chunker corpus)\<rparr>"
  using assms
  by (auto simp: KnowledgeBase_init_def load_def Let_def encode_def index_add_def IndexFlatL2_def
      split: sum.splits option.splits list.splits if_splits)

lemma constructed_index:
  assumes "KnowledgeBase_init w d = Inr kb"
  shows "\<exists>m ix. model kb = Some m \<and> index kb = Some ix \<and> SentenceTransformer w = Some m \<and>
           vectors ix = map (m (hidden w)) (chunks kb) \<and>
           list_all (\<lambda>v. length v = dimension ix) (vectors ix) \<and> chunks kb \<noteq> []"
proof -
  from KnowledgeBase_init_Inr [OF assms] obtain corpus m where
    k: "SentenceTransformer w = Some m" "chunks kb = chunker corpus" "model kb = Some m"
       "list_all (\<lambda>v. length v = length (m (hidden w) (hd (chunker corpus))))
             (map (m (hidden w)) (chunker corpus))"
       "index kb = Some \<lparr>dimension = length (m (hidden w) (hd (chunker corpus))),
                            vectors = map (m (hidden w)) (chunker corpus)\<rparr>"
    by blast
  have "chunker corpus \<noteq> []"
    by (simp add: chunker_def re_split.simps split: option.splits)
  with k show ?thesis by simp
qed

lemma nearest_chunks_eq:
  assumes "model kb = Some m" "index kb = Some ix" "length (m r query) = dimension ix"
    "length (vectors ix) = length (chunks kb)"
  shows "nearest_chunks r kb query k =
           Inr (map (\<lambda>(i, dst). chunks kb ! i) (search_row ix (m r query) k))"
proof -
  have "\<forall>i\<in>set (map fst (search_row ix (m r query) k)). i < length (chunks kb)"
    using search_row_entries [of _ _ ix "m r query" k] assms(4) by auto
  from getitems_Inr [OF this] show ?thesis
    using assms(1,2,3)
    by (simp add: nearest_chunks_def encode_def index_search_def getitem_def comp_def
        case_prod_unfold)
qed

lemma join_separated:
  "join sep (t # ts) = t @ concat (map (\<lambda>x. sep @ x) ts)"
  by (induction ts arbitrary: t) simp_all

lemma replace_char_twice:
  "replace_char BOM (replace_char ZWSP s) = filter (\<lambda>c. c \<noteq> ZWSP \<and> c \<noteq> BOM) s"
  by (simp add: replace_char_def conj_commute)

section \<open>The small worlds, evaluated\<close>

lemma length_u [simp]: "length (u s) = length s"
  by (simp add: u_def)

lemma chunker_world1:
  "chunker (u ''\<newline>\<newline># Source: a.md\<newline>\<newline>hi'') = [u ''# Source: a.md'', u ''hi'']"
  by (simp add: chunker_def strip_def u_def isspace_def re_split.simps match_len_def)

lemma load_files_world1:
  "load_files world1 \<lparr>kb_dir = u ''kb'', chunks = [], model = None, index = None\<rparr> =
     Inr (u ''\<newline>\<newline># Source: a.md\<newline>\<newline>hi'')"
  by (simp add: load_files_def world1_def endswith_def u_def path_join_def)

lemma world1_kb: "KnowledgeBase_init world1 (u ''kb'') = Inr kb1"
proof -
  have "SentenceTransformer world1 = Some emb0" "hidden world1 = 0"
    by (simp_all add: world1_def)
  then show ?thesis
    by (simp add: KnowledgeBase_init_def load_def load_files_world1 chunker_world1 Let_def
        encode_def emb0_def index_add_def IndexFlatL2_def kb1_def)
qed

lemma kb1_fields:
  "model kb1 = Some emb0" "index kb1 = Some \<lparr>dimension = 1, vectors = [[14], [2]]\<rparr>"
  "chunks kb1 = [u ''# Source: a.md'', u ''hi'']"
  by (simp_all add: kb1_def)

lemma search_row_kb1:
  "search_row \<lparr>dimension = 1, vectors = [[14], [2]]\<rparr> (emb0 0 (u ''yo'')) 1 = [(1, 0)]"
  by (simp add: search_row_def l2sqr_def emb0_def upt_rec)


lemma retrieve_kb1: "retrieve 0 kb1 (u ''yo'') 1 = Inr (u ''hi'')"
  by (simp add: retrieve_def nearest_chunks_def kb1_def encode_def emb0_def index_search_def
      search_row_def l2sqr_def getitem_def upt_rec u_def replace_char_def)

lemma files_world3:
  "sort (filter (\<lambda>f. endswith f (u ''.md'')) [u ''b.md'', u ''notes.txt'', u ''a.md'']) =
     [u ''a.md'', u ''b.md'']"
  by (simp add: endswith_def u_def)

lemma corpus_world3:
  "u ''\<newline>\<newline># Source: a.md\<newline>\<newline>h'' @ ZWSP # u ''i\<newline>\<newline># Source: b.md\<newline>\<newline>'' @ BOM # u ''yo'' =
   [10, 10, 35, 32, 83, 111, 117, 114, 99, 101, 58, 32, 97, 46, 109, 100, 10, 10, 104, ZWSP,
    105, 10, 10, 35, 32, 83, 111, 117, 114, 99, 101, 58, 32, 98, 46, 109, 100, 10, 10, BOM,
    121, 111]"
  by (simp add: u_def)

lemma load_files_world3:
  "load_files world3 \<lparr>kb_dir = u ''kb'', chunks = [], model = None, index = None\<rparr> =
     Inr (u ''\<newline>\<newline># Source: a.md\<newline>\<newline>h'' @ ZWSP # u ''i\<newline>\<newline># Source: b.md\<newline>\<newline>'' @ BOM # u ''yo'')"
  unfolding corpus_world3
  by (simp add: load_files_def world3_def endswith_def u_def path_join_def)

lemma chunker_world3:
  "chunker (u ''\<newline>\<newline># Source: a.md\<newline>\<newline>h'' @ ZWSP # u ''i\<newline>\<newline># Source: b.md\<newline>\<newline>'' @ BOM # u ''yo'') =
     [u ''# Source: a.md'', u ''h'' @ ZWSP # u ''i'', u ''# Source: b.md'', BOM # u ''yo'']"
  unfolding corpus_world3
  by (simp add: chunker_def strip_def u_def isspace_def re_split.simps match_len_def)

lemma world3_kb: "KnowledgeBase_init world3 (u ''kb'') = Inr kb3"
proof -
  have "SentenceTransformer world3 = Some emb0" "hidden world3 = 0"
    by (simp_all add: world3_def)
  then show ?thesis
    by (simp add: KnowledgeBase_init_def load_def load_files_world3 chunker_world3 Let_def
        encode_def emb0_def index_add_def IndexFlatL2_def kb3_def)
qed

lemma kb3_fields:
  "model kb3 = Some emb0"
  "index kb3 = Some \<lparr>dimension = 1, vectors = [[14], [3], [14], [3]]\<rparr>"
  "chunks kb3 =
     [u ''# Source: a.md'', u ''h'' @ ZWSP # u ''i'', u ''# Source: b.md'', BOM # u ''yo'']"
  by (simp_all add: kb3_def)

lemma search_row_kb3:
  "search_row \<lparr>dimension = 1, vectors = [[14], [3], [14], [3]]\<rparr> (emb0 0 (u ''abc'')) 2 =
     [(1, 0), (3, 0)]"
  by (simp add: search_row_def l2sqr_def emb0_def upt_rec)

lemma files_world1:
  "sort (filter (\<lambda>f. endswith f (u ''.md'')) [u ''notes.txt'', u ''a.md'']) = [u ''a.md'']"
  by (simp add: endswith_def u_def)

section \<open>The claims\<close>

text \<open>
  C1. For a constructed knowledge base, \<open>retrieve\<close> encodes the query into one vector,
  searches the index for the \<open>k\<close> nearest chunks (vector \<open>i\<close> of the index is the vector
  of chunk \<open>i\<close>; no chunk outside the row is nearer than one inside) and returns their
  texts in the order of the row, which is by ascending distance: the first text, then
  each further text after two newlines, and nothing when the row is empty; every U+200B
  and U+FEFF is removed from that and every other character kept. The vector of the
  query has the dimension of the index, as the vectors of one embedder have.
\<close>

theorem retrieve_joins_nearest_chunks:
  assumes "KnowledgeBase_init w d = Inr kb" "model kb = Some m" "index kb = Some ix"
    "length (m r query) = dimension ix"
  shows "let qv = m r query; row = search_row ix qv k in
           index_search ix (encode m r [query]) k = Inr [row] \<and>
           vectors ix = map (m (hidden w)) (chunks kb) \<and>
           length row = min k (length (chunks kb)) \<and>
           sorted (map snd row) \<and>
           (\<forall>(i, dst)\<in>set row. i < length (chunks kb) \<and> dst = l2sqr qv (vectors ix ! i)) \<and>
           (\<forall>j<length (chunks kb). j \<notin> fst ` set row \<longrightarrow>
              (\<forall>(i, dst)\<in>set row. dst \<le> l2sqr qv (vectors ix ! j))) \<and>
           retrieve r kb query k =
             Inr (filter (\<lambda>c. c \<noteq> ZWSP \<and> c \<noteq> BOM)
                    (case map (\<lambda>(i, dst). chunks kb ! i) row of
                       [] \<Rightarrow> []
                     | t # ts \<Rightarrow> t @ concat (map (\<lambda>x. [NL, NL] @ x) ts))) \<and>
           (\<forall>text. retrieve r kb query k = Inr text \<longrightarrow> ZWSP \<notin> set text \<and> BOM \<notin> set text)"
proof -
  from constructed_index [OF assms(1)] assms(2,3)
  have v: "vectors ix = map (m (hidden w)) (chunks kb)"
    by auto
  then have n: "length (vectors ix) = length (chunks kb)" by simp
  define row where "row = search_row ix (m r query) k"
  have 1: "index_search ix (encode m r [query]) k = Inr [row]"
    using assms(4) by (simp add: index_search_def encode_def row_def)
  have 2: "length row = min k (length (chunks kb))"
    by (simp add: row_def search_row_length n)
  have 3: "sorted (map snd row)"
    unfolding row_def by (rule search_row_sorted)
  have 4: "\<forall>(i, dst)\<in>set row. i < length (chunks kb) \<and> dst = l2sqr (m r query) (vectors ix ! i)"
    using search_row_entries [of _ _ ix "m r query" k] n by (auto simp: row_def)
  have 5: "\<forall>j<length (chunks kb). j \<notin> fst ` set row \<longrightarrow>
              (\<forall>(i, dst)\<in>set row. dst \<le> l2sqr (m r query) (vectors ix ! j))"
    using search_row_nearest [of _ ix "m r query" k] n by (auto simp: row_def)
  have j: "join (u ''\<newline>\<newline>'') texts =
      (case texts of [] \<Rightarrow> [] | t # ts \<Rightarrow> t @ concat (map (\<lambda>x. [NL, NL] @ x) ts))" for texts
    by (cases texts) (simp_all add: join_separated, simp_all add: u_def)
  have 6: "retrieve r kb query k =
             Inr (filter (\<lambda>c. c \<noteq> ZWSP \<and> c \<noteq> BOM)
                    (case map (\<lambda>(i, dst). chunks kb ! i) row of
                       [] \<Rightarrow> []
                     | t # ts \<Rightarrow> t @ concat (map (\<lambda>x. [NL, NL] @ x) ts)))"
    using nearest_chunks_eq [OF assms(2,3,4) n, of k]
    unfolding retrieve_def replace_char_twice row_def j by simp
  have 7: "\<forall>text. retrieve r kb query k = Inr text \<longrightarrow> ZWSP \<notin> set text \<and> BOM \<notin> set text"
    unfolding 6 by auto
  from 1 v 2 3 4 5 6 7 show ?thesis
    unfolding Let_def row_def by blast
qed

theorem retrieve_joins_nearest_chunks_witness:
  "KnowledgeBase_init world3 (u ''kb'') = Inr kb3 \<and>
   index_search \<lparr>dimension = 1, vectors = [[14], [3], [14], [3]]\<rparr>
     (encode emb0 0 [u ''abc'']) 2 = Inr [[(1, 0), (3, 0)]] \<and>
   chunks kb3 ! 1 = u ''h'' @ ZWSP # u ''i'' \<and> chunks kb3 ! 3 = BOM # u ''yo'' \<and>
   retrieve 0 kb3 (u ''abc'') 2 = Inr (u ''hi\<newline>\<newline>yo'')"
proof -
  have d: "length (emb0 0 (u ''abc'')) =
      dimension \<lparr>dimension = 1, vectors = [[14], [3], [14], [3]]\<rparr>"
    by (simp add: emb0_def)
  note th = retrieve_joins_nearest_chunks [OF world3_kb kb3_fields(1,2) d, of 2,
      unfolded Let_def search_row_kb3]
  from th have 1: "index_search \<lparr>dimension = 1, vectors = [[14], [3], [14], [3]]\<rparr>
      (encode emb0 0 [u ''abc'']) 2 = Inr [[(1, 0), (3, 0)]]"
    by (rule conjunct1)
  have 2: "chunks kb3 ! 1 = u ''h'' @ ZWSP # u ''i''" "chunks kb3 ! 3 = BOM # u ''yo''"
    by (simp_all add: kb3_fields(3))
  note c2 = conjunct2
  from th [THEN c2, THEN c2, THEN c2, THEN c2, THEN c2, THEN c2, THEN conjunct1]
  have "retrieve 0 kb3 (u ''abc'') 2 =
      Inr (filter (\<lambda>c. c \<noteq> ZWSP \<and> c \<noteq> BOM)
             (case map (\<lambda>(i, dst). chunks kb3 ! i) [(1, 0::real), (3, 0)] of
                [] \<Rightarrow> []
              | t # ts \<Rightarrow> t @ concat (map (\<lambda>x. [NL, NL] @ x) ts)))" .
  then have 3: "retrieve 0 kb3 (u ''abc'') 2 = Inr (u ''hi\<newline>\<newline>yo'')"
    by (simp add: kb3_fields(3) u_def)
  from world3_kb 1 2 3 show ?thesis by (intro conjI)
qed



text \<open>
  C3. The specification lets the construction of a knowledge base over a location with
  no eligible document fail with an error of its own. It does not fail: the corpus is the
  empty string, the splitter returns the one chunk \<open>''\<close>, and the index is built over
  the vector of that chunk. \<open>world0\<close> is such a location.
\<close>

theorem empty_location_builds_one_empty_chunk:
  "KnowledgeBase_init world0 (u ''kb'') =
     Inr \<lparr>kb_dir = u ''kb'', chunks = [[]], model = Some emb0,
          index = Some \<lparr>dimension = 1, vectors = [[0]]\<rparr>\<rparr>"
  by (simp add: KnowledgeBase_init_def load_def load_files_def world0_def endswith_def
      chunker_def strip_def re_split.simps Let_def encode_def emb0_def index_add_def
      IndexFlatL2_def u_def)

text \<open>
  C3, as the code has it: where the location can be listed, none of its names ends with
  \<open>.md\<close> and the embedding model loads, the construction succeeds with exactly one
  chunk, the empty string, and an index over the one vector of that chunk.
\<close>

theorem no_documents_one_empty_chunk:
  assumes "listdir w d = Some names" "filter (\<lambda>f. endswith f (u ''.md'')) names = []"
    "SentenceTransformer w = Some m"
  shows "KnowledgeBase_init w d =
     Inr \<lparr>kb_dir = d, chunks = [[]], model = Some m,
          index = Some \<lparr>dimension = length (m (hidden w) []), vectors = [m (hidden w) []]\<rparr>\<rparr>"
  using assms
  by (simp add: KnowledgeBase_init_def load_def load_files_def chunker_def strip_def
      re_split.simps Let_def encode_def index_add_def IndexFlatL2_def)

theorem no_documents_one_empty_chunk_witness:
  "listdir world0 (u ''kb'') = Some [u ''notes.txt''] \<and>
   filter (\<lambda>f. endswith f (u ''.md'')) [u ''notes.txt''] = [] \<and>
   SentenceTransformer world0 = Some emb0 \<and>
   chunks (projr (KnowledgeBase_init world0 (u ''kb''))) = [[]] \<and>
   map_option vectors (index (projr (KnowledgeBase_init world0 (u ''kb'')))) = Some [[0]]"
proof -
  have 1: "listdir world0 (u ''kb'') = Some [u ''notes.txt'']"
    by (simp add: world0_def)
  have 2: "filter (\<lambda>f. endswith f (u ''.md'')) [u ''notes.txt''] = []"
    by (simp add: endswith_def u_def)
  have 3: "SentenceTransformer world0 = Some emb0"
    by (simp add: world0_def)
  from no_documents_one_empty_chunk [OF 1 2 3] 1 2 3
  show ?thesis by (simp add: emb0_def world0_def)
qed

text \<open>
  C4. A corpus of \<open>n\<close> paragraphs, each after the first separated from the one before it
  by whitespace with a blank line, and whitespace around the whole: the chunker returns
  exactly \<open>n\<close> chunks, none empty, and chunk \<open>i\<close> is paragraph \<open>i\<close> with, at most,
  whitespace of the gaps around it. A corpus whose trimmed text has no blank line yields
  exactly one chunk, the trimmed corpus.
\<close>

theorem chunker_paragraphs_in_order:
  "(list_all isspace lead \<longrightarrow> list_all isspace trail \<longrightarrow> is_para p \<longrightarrow>
    (\<forall>(g, q)\<in>set rest. blank_gap g \<and> is_para q) \<longrightarrow>
      length (chunker (lead @ corpus_of p rest @ trail)) = Suc (length rest) \<and>
      [] \<notin> set (chunker (lead @ corpus_of p rest @ trail)) \<and>
      map strip (chunker (lead @ corpus_of p rest @ trail)) = p # map snd rest) \<and>
   (\<not> has_blank_line (strip corpus) \<longrightarrow> chunker corpus = [strip corpus])"
proof (intro conjI impI)
  assume a: "list_all isspace lead" "list_all isspace trail" "is_para p"
    "\<forall>(g, q)\<in>set rest. blank_gap g \<and> is_para q"
  let ?cs = "chunker (lead @ corpus_of p rest @ trail)"
  from corpus_of_paragraphs [OF a] show m: "map strip ?cs = p # map snd rest" .
  from m have "length (map strip ?cs) = length (p # map snd rest)" by simp
  then show "length ?cs = Suc (length rest)" by simp
  show "[] \<notin> set ?cs"
  proof
    assume "[] \<in> set ?cs"
    then have "strip [] \<in> strip ` set ?cs" by (rule imageI)
    then have "[] \<in> set (map strip ?cs)" by simp
    then have "[] \<in> set (p # map snd rest)" unfolding m .
    then show False using a(3,4) by (auto simp: is_para_def)
  qed
next
  assume "\<not> has_blank_line (strip corpus)"
  then have "re_search (strip corpus) = None" by (simp add: re_search_None_iff)
  then show "chunker corpus = [strip corpus]" by (simp add: chunker_def re_split_None)
qed

theorem chunker_paragraphs_in_order_witness:
  "list_all isspace (u ''\<newline>'') \<and> list_all isspace (u '' '') \<and> is_para (u ''A b'') \<and>
   blank_gap (u '' \<newline> \<newline> '') \<and> is_para (u ''C\<newline>d'') \<and>
   chunker (u ''\<newline>A b \<newline> \<newline> C\<newline>d '') = [u ''A b '', u '' C\<newline>d''] \<and>
   map strip [u ''A b '', u '' C\<newline>d''] = [u ''A b'', u ''C\<newline>d''] \<and>
   \<not> has_blank_line (strip (u '' x\<newline>y '')) \<and>
   chunker (u '' x\<newline>y '') = [u ''x\<newline>y'']"
proof -
  have 1: "list_all isspace (u ''\<newline>'')" "list_all isspace (u '' '')"
    by (simp_all add: u_def isspace_def)
  have 2: "is_para (u ''A b'')" "is_para (u ''C\<newline>d'')"
    by (simp_all add: is_para_def u_def isspace_def)
  have 3: "blank_gap (u '' \<newline> \<newline> '')"
    by (simp add: blank_gap_def u_def isspace_def)
  have 4: "\<forall>(g, q)\<in>set [(u '' \<newline> \<newline> '', u ''C\<newline>d'')]. blank_gap g \<and> is_para q"
    using 2 3 by simp
  have 5: "chunker (u ''\<newline>A b \<newline> \<newline> C\<newline>d '') = [u ''A b '', u '' C\<newline>d'']"
    by (simp add: chunker_def strip_def u_def isspace_def re_split.simps match_len_def)
  have 6: "strip (u '' x\<newline>y '') = u ''x\<newline>y''"
    by (simp add: strip_def u_def isspace_def)
  have 7: "\<not> has_blank_line (strip (u '' x\<newline>y ''))"
    unfolding 6 by (simp add: u_def isspace_def)
  have 8: "u ''\<newline>'' @ corpus_of (u ''A b'') [(u '' \<newline> \<newline> '', u ''C\<newline>d'')] @ u '' '' =
      u ''\<newline>A b \<newline> \<newline> C\<newline>d ''"
    by (simp add: corpus_of_def u_def)
  note th = chunker_paragraphs_in_order [of "u ''\<newline>''" "u '' ''" "u ''A b''"
      "[(u '' \<newline> \<newline> '', u ''C\<newline>d'')]" "u '' x\<newline>y ''", unfolded 8 5 6]
  from th [THEN conjunct1, THEN mp, OF 1(1), THEN mp, OF 1(2), THEN mp, OF 2(1), THEN mp, OF 4]
  have 9: "map strip [u ''A b '', u '' C\<newline>d''] = [u ''A b'', u ''C\<newline>d'']"
    by simp
  from th [THEN conjunct2, THEN mp, OF 7 [unfolded 6]]
  have 10: "chunker (u '' x\<newline>y '') = [u ''x\<newline>y'']" .
  from 1 2 3 5 9 7 10 show ?thesis by (intro conjI)
qed

text \<open>
  C5. The specification has every retrieved chunk retain traceability to its origin
  file. The header is followed by a blank line, so the splitter makes it a chunk of its
  own, and a chunk of the content names no file: in \<open>world1\<close> the chunks of \<open>a.md\<close> are
  its header and \<open>hi\<close>, and the nearest chunk to the query \<open>yo\<close> is returned as \<open>hi\<close>.
\<close>

theorem retrieved_chunk_names_no_file:
  "KnowledgeBase_init world1 (u ''kb'') = Inr kb1 \<and>
   chunks kb1 = [u ''# Source: a.md'', u ''hi''] \<and>
   retrieve 0 kb1 (u ''yo'') 1 = Inr (u ''hi'') \<and>
   \<not> sublist (u ''a.md'') (u ''hi'')"
proof -
  have "\<not> sublist (u ''a.md'') (u ''hi'')"
    by (simp add: u_def sublist_Cons_right)
  with world1_kb kb1_fields(3) retrieve_kb1 show ?thesis by (intro conjI)
qed

text \<open>
  C5, as the code has it: where the location can be listed and its files with a name
  that ends with \<open>.md\<close> can be read, the corpus is the concatenation, over exactly these
  names in ascending order, of a blank line, the header \<open># Source: \<close> with the name, a
  blank line, and the content of the file; and it is this corpus that the construction
  of the knowledge base splits into its chunks.
\<close>

theorem load_files_sorted_documents:
  assumes "listdir w (kb_dir self) = Some names"
    "\<forall>f\<in>set names. suffix (u ''.md'') f \<longrightarrow>
       read_text w (path_join (kb_dir self) f) = Some (content f)"
  shows "load_files w self =
           Inr (concat (map (\<lambda>f. u ''\<newline>\<newline># Source: '' @ f @ u ''\<newline>\<newline>'' @ content f)
                  (sort (filter (\<lambda>f. suffix (u ''.md'') f) names)))) \<and>
         sorted (sort (filter (\<lambda>f. suffix (u ''.md'') f) names)) \<and>
         set (sort (filter (\<lambda>f. suffix (u ''.md'') f) names)) =
           {f \<in> set names. suffix (u ''.md'') f} \<and>
         (KnowledgeBase_init w (kb_dir self) = Inr kb \<longrightarrow>
            chunks kb =
              chunker (concat (map (\<lambda>f. u ''\<newline>\<newline># Source: '' @ f @ u ''\<newline>\<newline>'' @ content f)
                         (sort (filter (\<lambda>f. suffix (u ''.md'') f) names)))))"
proof -
  let ?files = "sort (filter (\<lambda>f. suffix (u ''.md'') f) names)"
  let ?corpus = "concat (map (\<lambda>f. u ''\<newline>\<newline># Source: '' @ f @ u ''\<newline>\<newline>'' @ content f) ?files)"
  have e: "(\<lambda>f. endswith f (u ''.md'')) = (\<lambda>f. suffix (u ''.md'') f)"
    by (simp add: endswith_suffix)
  have "\<forall>f\<in>set ?files. read_text w (path_join (kb_dir self) f) = Some (content f)"
    using assms(2) by simp
  from read_all_eq [OF this, of "[]"]
  have "load_files w self = Inr (concat (map (\<lambda>f. entry (f, content f)) ?files))"
    using assms(1) by (simp add: load_files_def e)
  then have 1: "load_files w self = Inr ?corpus"
    by (simp add: entry_def provenance_header_def u_def)
  have 2: "KnowledgeBase_init w (kb_dir self) = Inr kb \<longrightarrow> chunks kb = chunker ?corpus"
  proof
    assume "KnowledgeBase_init w (kb_dir self) = Inr kb"
    from KnowledgeBase_init_Inr [OF this] obtain corpus where
      c: "load_files w \<lparr>kb_dir = kb_dir self, chunks = [], model = None, index = None\<rparr> =
            Inr corpus"
      and k: "chunks kb = chunker corpus"
      by blast
    have "load_files w \<lparr>kb_dir = kb_dir self, chunks = [], model = None, index = None\<rparr> =
        load_files w self"
      by (simp add: load_files_def split: option.splits)
    with c 1 have "corpus = ?corpus" by simp
    with k show "chunks kb = chunker ?corpus" by simp
  qed
  from 1 2 show ?thesis by simp
qed

theorem load_files_sorted_documents_witness:
  "listdir world3 (kb_dir kb3) = Some [u ''b.md'', u ''notes.txt'', u ''a.md''] \<and>
   read_text world3 (path_join (kb_dir kb3) (u ''a.md'')) = Some (u ''h'' @ ZWSP # u ''i'') \<and>
   read_text world3 (path_join (kb_dir kb3) (u ''b.md'')) = Some (BOM # u ''yo'') \<and>
   sort (filter (\<lambda>f. suffix (u ''.md'') f) [u ''b.md'', u ''notes.txt'', u ''a.md'']) =
     [u ''a.md'', u ''b.md''] \<and>
   load_files world3 kb3 =
     Inr (u ''\<newline>\<newline># Source: a.md\<newline>\<newline>h'' @ ZWSP # u ''i\<newline>\<newline># Source: b.md\<newline>\<newline>'' @ BOM # u ''yo'') \<and>
   KnowledgeBase_init world3 (kb_dir kb3) = Inr kb3 \<and>
   chunks kb3 =
     chunker (u ''\<newline>\<newline># Source: a.md\<newline>\<newline>h'' @ ZWSP # u ''i\<newline>\<newline># Source: b.md\<newline>\<newline>'' @ BOM # u ''yo'')"
proof -
  let ?content = "\<lambda>f. if f = u ''a.md'' then u ''h'' @ ZWSP # u ''i'' else BOM # u ''yo''"
  have 1: "listdir world3 (kb_dir kb3) = Some [u ''b.md'', u ''notes.txt'', u ''a.md'']"
    by (simp add: world3_def kb3_def)
  have 2: "read_text world3 (path_join (kb_dir kb3) (u ''a.md'')) = Some (u ''h'' @ ZWSP # u ''i'')"
    "read_text world3 (path_join (kb_dir kb3) (u ''b.md'')) = Some (BOM # u ''yo'')"
    by (simp_all add: world3_def kb3_def path_join_def u_def)
  have 3: "\<forall>f\<in>set [u ''b.md'', u ''notes.txt'', u ''a.md'']. suffix (u ''.md'') f \<longrightarrow>
       read_text world3 (path_join (kb_dir kb3) f) = Some (?content f)"
    using 2 by (simp add: endswith_suffix [symmetric] endswith_def u_def)
  have 4: "sort (filter (\<lambda>f. suffix (u ''.md'') f) [u ''b.md'', u ''notes.txt'', u ''a.md'']) =
     [u ''a.md'', u ''b.md'']"
    using files_world3 by (simp add: endswith_suffix)
  have 5: "concat (map (\<lambda>f. u ''\<newline>\<newline># Source: '' @ f @ u ''\<newline>\<newline>'' @ ?content f)
      [u ''a.md'', u ''b.md'']) =
     u ''\<newline>\<newline># Source: a.md\<newline>\<newline>h'' @ ZWSP # u ''i\<newline>\<newline># Source: b.md\<newline>\<newline>'' @ BOM # u ''yo''"
    by (simp add: u_def)
  have 6: "KnowledgeBase_init world3 (kb_dir kb3) = Inr kb3"
    using world3_kb by (simp add: kb3_def)
  note th = load_files_sorted_documents [OF 1 3, of kb3, unfolded 4 5]
  from th have 7: "load_files world3 kb3 =
     Inr (u ''\<newline>\<newline># Source: a.md\<newline>\<newline>h'' @ ZWSP # u ''i\<newline>\<newline># Source: b.md\<newline>\<newline>'' @ BOM # u ''yo'')"
    by (rule conjunct1)
  from th [THEN conjunct2, THEN conjunct2, THEN conjunct2, THEN mp, OF 6]
  have 8: "chunks kb3 =
     chunker (u ''\<newline>\<newline># Source: a.md\<newline>\<newline>h'' @ ZWSP # u ''i\<newline>\<newline># Source: b.md\<newline>\<newline>'' @ BOM # u ''yo'')" .
  from 1 2 4 7 6 8 show ?thesis by (intro conjI)
qed

text \<open>
  C6. When \<open>get_kb\<close> for a location returns a knowledge base, a second call for the
  same location returns the same knowledge base and leaves the state as it is, whatever
  the world holds by then; over the two calls the constructor ran once for that location
  when it was not cached before, and not at all when it was. The entries of the other
  locations and the constructions for them are untouched, and a later call for another
  location leaves the entry of this one in place.
\<close>

theorem get_kb_twice_same_instance:
  assumes "get_kb w d st = (Inr kb, st1)"
  shows "get_kb w' d st1 = (Inr kb, st1) \<and>
         count_list (constructed st1) d =
           count_list (constructed st) d + (if kb_cache st d = None then 1 else 0) \<and>
         (\<forall>d'. d' \<noteq> d \<longrightarrow>
            kb_cache st1 d' = kb_cache st d' \<and>
            count_list (constructed st1) d' = count_list (constructed st) d' \<and>
            kb_cache (snd (get_kb w' d' st1)) d = Some kb)"
proof (cases "kb_cache st d")
  case None
  with assms have k: "KnowledgeBase_init w d = Inr kb"
    and s: "st1 = st\<lparr>constructed := constructed st @ [d], kb_cache := (kb_cache st)(d \<mapsto> kb)\<rparr>"
    by (auto simp: get_kb_def Let_def split: sum.splits)
  show ?thesis
    using None unfolding s
    by (auto simp: get_kb_def Let_def split: sum.splits option.splits)
next
  case (Some kb')
  with assms have s: "st1 = st" "kb' = kb"
    by (auto simp: get_kb_def)
  show ?thesis
    using Some unfolding s
    by (auto simp: get_kb_def Let_def split: sum.splits option.splits)
qed

theorem get_kb_twice_same_instance_witness:
  "get_kb world1 (u ''kb'') st0 =
     (Inr kb1, \<lparr>kb_cache = [u ''kb'' \<mapsto> kb1], constructed = [u ''kb'']\<rparr>) \<and>
   get_kb world0 (u ''kb'') \<lparr>kb_cache = [u ''kb'' \<mapsto> kb1], constructed = [u ''kb'']\<rparr> =
     (Inr kb1, \<lparr>kb_cache = [u ''kb'' \<mapsto> kb1], constructed = [u ''kb'']\<rparr>) \<and>
   count_list [u ''kb''] (u ''kb'') = 1"
proof -
  have 1: "get_kb world1 (u ''kb'') st0 =
     (Inr kb1, \<lparr>kb_cache = [u ''kb'' \<mapsto> kb1], constructed = [u ''kb'']\<rparr>)"
    by (simp add: get_kb_def st0_def world1_kb)
  from get_kb_twice_same_instance [OF 1, of world0, THEN conjunct1]
  have 2: "get_kb world0 (u ''kb'') \<lparr>kb_cache = [u ''kb'' \<mapsto> kb1], constructed = [u ''kb'']\<rparr> =
     (Inr kb1, \<lparr>kb_cache = [u ''kb'' \<mapsto> kb1], constructed = [u ''kb'']\<rparr>)" .
  from get_kb_twice_same_instance [OF 1, of world0, THEN conjunct2, THEN conjunct1]
  have 3: "count_list [u ''kb''] (u ''kb'') = 1"
    by (simp add: st0_def)
  from 1 2 3 show ?thesis by (intro conjI)
qed

text \<open>
  C7. When the construction of the knowledge base fails inside \<open>get_kb\<close>, whatever the
  error, the cache is as it was before the call, with no entry for the location, and a
  later \<open>get_kb\<close> for the location calls the constructor again: its result is that of a
  new construction in the world of that time.
\<close>

theorem failed_construction_not_cached:
  assumes "get_kb w d st = (Inl e, st1)"
  shows "KnowledgeBase_init w d = Inl e \<and>
         kb_cache st1 = kb_cache st \<and> kb_cache st1 d = None \<and>
         constructed st1 = constructed st @ [d] \<and>
         fst (get_kb w' d st1) = KnowledgeBase_init w' d \<and>
         constructed (snd (get_kb w' d st1)) = constructed st1 @ [d]"
proof -
  from assms have n: "kb_cache st d = None"
    by (auto simp: get_kb_def split: option.splits)
  with assms have k: "KnowledgeBase_init w d = Inl e"
    and s: "st1 = st\<lparr>constructed := constructed st @ [d]\<rparr>"
    by (auto simp: get_kb_def Let_def split: sum.splits)
  show ?thesis
    using n k unfolding s
    by (auto simp: get_kb_def Let_def split: sum.splits)
qed

theorem failed_construction_not_cached_witness:
  "get_kb (world1\<lparr>SentenceTransformer := None\<rparr>) (u ''kb'') st0 =
     (Inl ModelLoadError, \<lparr>kb_cache = Map.empty, constructed = [u ''kb'']\<rparr>) \<and>
   fst (get_kb world1 (u ''kb'') \<lparr>kb_cache = Map.empty, constructed = [u ''kb'']\<rparr>) = Inr kb1 \<and>
   constructed (snd (get_kb world1 (u ''kb'') \<lparr>kb_cache = Map.empty, constructed = [u ''kb'']\<rparr>)) =
     [u ''kb'', u ''kb'']"
proof -
  have f: "load_files (world1\<lparr>SentenceTransformer := None\<rparr>)
       \<lparr>kb_dir = u ''kb'', chunks = [], model = None, index = None\<rparr> =
     Inr (u ''\<newline>\<newline># Source: a.md\<newline>\<newline>hi'')"
    by (simp add: load_files_def world1_def endswith_def u_def path_join_def)
  have k: "KnowledgeBase_init (world1\<lparr>SentenceTransformer := None\<rparr>) (u ''kb'') = Inl ModelLoadError"
    by (simp add: KnowledgeBase_init_def load_def f Let_def)
  have 1: "get_kb (world1\<lparr>SentenceTransformer := None\<rparr>) (u ''kb'') st0 =
     (Inl ModelLoadError, \<lparr>kb_cache = Map.empty, constructed = [u ''kb'']\<rparr>)"
    by (simp add: get_kb_def st0_def k)
  note th = failed_construction_not_cached [OF 1, of world1]
  note c2 = conjunct2
  from th [THEN c2, THEN c2, THEN c2, THEN c2, THEN conjunct1]
  have 2: "fst (get_kb world1 (u ''kb'') \<lparr>kb_cache = Map.empty, constructed = [u ''kb'']\<rparr>) =
      Inr kb1"
    unfolding world1_kb .
  from th [THEN c2, THEN c2, THEN c2, THEN c2, THEN c2]
  have 3: "constructed (snd (get_kb world1 (u ''kb'')
      \<lparr>kb_cache = Map.empty, constructed = [u ''kb'']\<rparr>)) = [u ''kb'', u ''kb'']"
    by simp
  from 1 2 3 show ?thesis by (intro conjI)
qed

text \<open>
  C8. Two calls of \<open>retrieve\<close> on the same knowledge base with the same query and the
  same \<open>k\<close> return the same, whatever else differs between the two calls, when the
  embedder is deterministic.
\<close>

theorem retrieve_deterministic:
  assumes "model kb = Some m" "deterministic m"
  shows "retrieve r kb query k = retrieve r' kb query k"
proof -
  from assms(2) have "m r query = m r' query"
    by (simp add: deterministic_def)
  then have "nearest_chunks r kb query k = nearest_chunks r' kb query k"
    using assms(1) by (simp add: nearest_chunks_def encode_def)
  then show ?thesis by (simp add: retrieve_def)
qed

theorem retrieve_deterministic_witness:
  "model kb1 = Some emb0 \<and> deterministic emb0 \<and>
   retrieve 3 kb1 (u ''yo'') 1 = retrieve 8 kb1 (u ''yo'') 1"
proof -
  have d: "deterministic emb0"
    by (simp add: deterministic_def emb0_def)
  from retrieve_deterministic [OF kb1_fields(1) d, of 3 "u ''yo''" 1 8] kb1_fields(1) d
  show ?thesis by (intro conjI)
qed

text \<open>
  C9. \<open>retrieve\<close> with \<open>k = 0\<close> on a constructed knowledge base returns the empty
  string, whatever the chunks are (the vector of the query has the dimension of the
  index, as the vectors of one embedder have).
\<close>

theorem retrieve_zero_empty:
  assumes "KnowledgeBase_init w d = Inr kb" "model kb = Some m" "index kb = Some ix"
    "length (m r query) = dimension ix"
  shows "retrieve r kb query 0 = Inr []"
  using assms(2,3,4)
  by (simp add: retrieve_def nearest_chunks_def encode_def index_search_def getitem_def
      search_row_zero replace_char_def)

theorem retrieve_zero_empty_witness:
  "KnowledgeBase_init world1 (u ''kb'') = Inr kb1 \<and> retrieve 0 kb1 (u ''yo'') 0 = Inr []"
proof -
  have d: "length (emb0 0 (u ''yo'')) = dimension \<lparr>dimension = 1, vectors = [[14], [2]]\<rparr>"
    by (simp add: emb0_def)
  from retrieve_zero_empty [OF world1_kb kb1_fields(1,2) d] world1_kb
  show ?thesis by (intro conjI)
qed

text \<open>
  C10. Each header is said to be a chunk of its own for every directory with an
  eligible document. A file name may itself hold a blank line; then the splitter cuts the header in two and no chunk is the
  header: \<open>world2\<close> has the one document \<open>x\n\ny.md\<close>.
\<close>

theorem header_cut_at_blank_line_in_name:
  "map_sum id chunks (KnowledgeBase_init world2 (u ''kb'')) =
     Inr [u ''# Source: x'', u ''y.md'', u ''hi''] \<and>
   u ''# Source: x\<newline>\<newline>y.md'' \<notin> set [u ''# Source: x'', u ''y.md'', u ''hi'']"
proof -
  have n: "u ''# Source: x\<newline>\<newline>y.md'' \<notin> set [u ''# Source: x'', u ''y.md'', u ''hi'']"
    by (simp add: u_def)
  have f: "load_files world2 \<lparr>kb_dir = u ''kb'', chunks = [], model = None, index = None\<rparr> =
     Inr (u ''\<newline>\<newline># Source: x\<newline>\<newline>y.md\<newline>\<newline>hi'')"
    by (simp add: load_files_def world2_def endswith_def u_def path_join_def)
  have c: "chunker (u ''\<newline>\<newline># Source: x\<newline>\<newline>y.md\<newline>\<newline>hi'') =
     [u ''# Source: x'', u ''y.md'', u ''hi'']"
    by (simp add: chunker_def strip_def u_def isspace_def re_split.simps match_len_def)
  have "SentenceTransformer world2 = Some emb0" "hidden world2 = 0"
    by (simp_all add: world2_def)
  then have "map_sum id chunks (KnowledgeBase_init world2 (u ''kb'')) =
     Inr [u ''# Source: x'', u ''y.md'', u ''hi'']"
    by (simp add: KnowledgeBase_init_def load_def f c Let_def encode_def emb0_def
        index_add_def IndexFlatL2_def)
  with n show ?thesis by (intro conjI)
qed

text \<open>
  C10, as the code has it: for a constructed knowledge base over a directory with at
  least one eligible document, none of whose names holds a blank line, the chunks are,
  document by document in the order of the names, the header \<open># Source: \<close> with the name
  as a chunk of its own, followed by chunks that are pieces of the content of that
  document and of nothing else.
\<close>

theorem provenance_headers_are_chunks:
  assumes "KnowledgeBase_init w d = Inr kb" "listdir w d = Some names"
    "files = sort (filter (\<lambda>f. endswith f (u ''.md'')) names)" "files \<noteq> []"
    "\<forall>f\<in>set files. \<not> has_blank_line f"
  shows "\<exists>css. length css = length files \<and>
           chunks kb = concat (map2 (\<lambda>f cs. (u ''# Source: '' @ f) # cs) files css) \<and>
           (\<forall>i<length files. \<forall>c\<in>set (css ! i).
              \<exists>content. read_text w (path_join d (files ! i)) = Some content \<and>
                sublist c content)"
proof -
  from KnowledgeBase_init_Inr [OF assms(1)] obtain corpus where
    lf: "load_files w \<lparr>kb_dir = d, chunks = [], model = None, index = None\<rparr> = Inr corpus"
    and ch: "chunks kb = chunker corpus"
    by blast
  from lf assms(2,3) have ra: "read_all w d files [] = Inr corpus"
    by (simp add: load_files_def)
  define content where "content f = the (read_text w (path_join d f))" for f
  from read_all_Inr [OF ra]
  have rd: "\<forall>f\<in>set files. read_text w (path_join d f) = Some (content f)"
    by (auto simp: content_def)
  from read_all_eq [OF rd, of "[]"] ra
  have corpus: "corpus = concat (map entry (map (\<lambda>f. (f, content f)) files))"
    by (simp add: comp_def)
  from assms(4) obtain f0 fs where files: "files = f0 # fs" by (cases files) auto
  let ?docs = "map (\<lambda>f. (f, content f)) files"
  have "\<forall>f\<in>set files. endswith f (u ''.md'')"
    unfolding assms(3) by simp
  with assms(5) have "\<forall>f\<in>set (f0 # fs). endswith f (u ''.md'') \<and> \<not> has_blank_line f"
    unfolding files by blast
  then have ok: "\<forall>(f, c)\<in>set ((f0, content f0) # map (\<lambda>f. (f, content f)) fs).
      endswith f (u ''.md'') \<and> \<not> has_blank_line f"
    by auto
  from split_documents [OF ok] chunker_documents [OF ok] obtain css where
    l: "length css = length files" and
    s: "chunker corpus = concat (map2 (\<lambda>doc cs. provenance_header (fst doc) # cs) ?docs css)" and
    a: "list_all2 (\<lambda>doc cs. \<forall>x\<in>set cs. sublist x (snd doc)) ?docs css"
    unfolding corpus files by auto
  have 1: "chunks kb = concat (map2 (\<lambda>f cs. (u ''# Source: '' @ f) # cs) files css)"
    unfolding ch s
    by (simp add: zip_map1 provenance_header_def case_prod_unfold comp_def)
  from a have "list_all2 (\<lambda>f cs. \<forall>x\<in>set cs. sublist x (content f)) files css"
    by (simp add: list_all2_map1)
  then have 2: "\<forall>i<length files. \<forall>c\<in>set (css ! i).
      \<exists>content. read_text w (path_join d (files ! i)) = Some content \<and> sublist c content"
    using rd by (auto simp: list_all2_conv_all_nth)
  from l 1 2 show ?thesis by blast
qed

theorem provenance_headers_are_chunks_witness:
  "KnowledgeBase_init world1 (u ''kb'') = Inr kb1 \<and>
   listdir world1 (u ''kb'') = Some [u ''notes.txt'', u ''a.md''] \<and>
   sort (filter (\<lambda>f. endswith f (u ''.md'')) [u ''notes.txt'', u ''a.md'']) = [u ''a.md''] \<and>
   \<not> has_blank_line (u ''a.md'') \<and>
   (\<exists>css. length css = length [u ''a.md''] \<and>
      chunks kb1 = concat (map2 (\<lambda>f cs. (u ''# Source: '' @ f) # cs) [u ''a.md''] css))"
proof -
  have 1: "listdir world1 (u ''kb'') = Some [u ''notes.txt'', u ''a.md'']"
    by (simp add: world1_def)
  have 2: "[u ''a.md''] \<noteq> []" by simp
  have 3: "\<not> has_blank_line (u ''a.md'')" by (simp add: u_def)
  then have 4: "\<forall>f\<in>set [u ''a.md'']. \<not> has_blank_line f" by simp
  from provenance_headers_are_chunks [OF world1_kb 1 files_world1 [symmetric] 2 4]
  have "\<exists>css. length css = length [u ''a.md''] \<and>
      chunks kb1 = concat (map2 (\<lambda>f cs. (u ''# Source: '' @ f) # cs) [u ''a.md''] css)"
    by blast
  with world1_kb 1 files_world1 3 show ?thesis by (intro conjI)
qed

end
